theory Spec2Isabelle
  imports Main "HOL-Library.AList"
begin

section \<open>Text\<close>

text \<open>
  A Python \<^verbatim>\<open>str\<close> is a sequence of Unicode code points, so text is modelled as a
  list of natural numbers, one per code point. \<open>ustr\<close> turns a literal of the theory
  into such a list.
\<close>

type_synonym pystr = "nat list"

definition ustr :: "string \<Rightarrow> pystr" where
  "ustr s = map of_char s"

text \<open>
  The code points for which \<^verbatim>\<open>str.isspace\<close> holds; the same set is matched by
  \<^verbatim>\<open>\s\<close> in a \<^verbatim>\<open>str\<close> pattern and removed by \<^verbatim>\<open>str.strip()\<close>.
\<close>

definition is_space :: "nat \<Rightarrow> bool" where
  "is_space c =
     (c \<in> set [9, 10, 11, 12, 13, 28, 29, 30, 31, 32, 133, 160,
                5760, 8232, 8233, 8239, 8287, 12288]
      \<or> (8192 \<le> c \<and> c \<le> 8202))"

text \<open>\<^verbatim>\<open>s.startswith(p)\<close>\<close>

definition startswith :: "pystr \<Rightarrow> pystr \<Rightarrow> bool" where
  "startswith s p = (take (length p) s = p)"

section \<open>The metadata tag pattern\<close>

text \<open>
  \<^verbatim>\<open>transkribus_metadata_tag_pattern =
    re_compile(r"\s*<TranskribusMetadata[^>]*/?>([^<]*</TranskribusMetadata>)?")\<close>

  The pattern uses literals, the class \<^verbatim>\<open>\s\<close>, negated one-character classes, the
  greedy star over a class, the greedy option and concatenation. \<open>rx_matches r s\<close> lists
  the remainders of \<open>s\<close> after every way \<open>r\<close> can match a prefix of \<open>s\<close>, in the order
  in which a backtracking matcher tries them: a greedy star tries the longest run first
  and gives characters back one at a time, a greedy option tries its body before the
  empty match. The head of the list is the match the matcher reports.
\<close>

datatype cls = Whitespace | Except nat

fun in_cls :: "cls \<Rightarrow> nat \<Rightarrow> bool" where
  "in_cls Whitespace c = is_space c"
| "in_cls (Except x) c = (c \<noteq> x)"

datatype rx = Lit pystr | Star cls | Opt rx | Seq rx rx

fun rx_matches :: "rx \<Rightarrow> pystr \<Rightarrow> pystr list" where
  "rx_matches (Lit l) s = (if startswith s l then [drop (length l) s] else [])"
| "rx_matches (Star k) [] = [[]]"
| "rx_matches (Star k) (c # cs) =
     (if in_cls k c then rx_matches (Star k) cs @ [c # cs] else [c # cs])"
| "rx_matches (Opt r) s = rx_matches r s @ [s]"
| "rx_matches (Seq a b) s = concat (map (rx_matches b) (rx_matches a s))"

definition transkribus_metadata_tag_pattern :: rx where
  "transkribus_metadata_tag_pattern =
     Seq (Star Whitespace)
    (Seq (Lit (ustr ''<TranskribusMetadata''))
    (Seq (Star (Except (of_char CHR ''>'')))
    (Seq (Opt (Lit (ustr ''/'')))
    (Seq (Lit (ustr ''>''))
         (Opt (Seq (Star (Except (of_char CHR ''<'')))
                   (Lit (ustr ''</TranskribusMetadata>''))))))))"

text \<open>
  \<^verbatim>\<open>pattern.sub("", s)\<close> scans \<open>s\<close> from the left. At each position it removes the
  reported match and goes on behind it; where nothing matches it keeps the character
  and moves one position on. An empty match removes nothing, and the matcher then looks
  for a match that is not empty at the same position, so only the matches that consume
  something count.
\<close>

definition match_at :: "rx \<Rightarrow> pystr \<Rightarrow> pystr option" where
  "match_at r s =
     (case filter (\<lambda>t. length t < length s) (rx_matches r s) of
        [] \<Rightarrow> None
      | t # _ \<Rightarrow> Some t)"

lemma match_at_shorter: "match_at r s = Some t \<Longrightarrow> length t < length s"
  unfolding match_at_def by (auto split: list.splits dest: filter_eq_ConsD)

function re_sub_empty :: "rx \<Rightarrow> pystr \<Rightarrow> pystr" where
  "re_sub_empty r [] = []"
| "re_sub_empty r (c # cs) =
     (case match_at r (c # cs) of
        None \<Rightarrow> c # re_sub_empty r cs
      | Some t \<Rightarrow> re_sub_empty r t)"
  by pat_completeness auto
termination
proof (relation "measure (\<lambda>(r, s). length s)")
  show "wf (measure (\<lambda>(r, s). length s))" by simp
next
  fix r :: rx and c :: nat and cs :: pystr
  show "((r, cs), (r, c # cs)) \<in> measure (\<lambda>(r, s). length s)" by simp
next
  fix r :: rx and c :: nat and cs t :: pystr
  assume "match_at r (c # cs) = Some t"
  then have "length t < length (c # cs)" by (rule match_at_shorter)
  then show "((r, t), (r, c # cs)) \<in> measure (\<lambda>(r, s). length s)" by simp
qed

text \<open>
  \<^verbatim>\<open>def remove_transkribus_metadata(xml: str) -> str:
      return transkribus_metadata_tag_pattern.sub("", xml)\<close>
\<close>

definition remove_transkribus_metadata :: "pystr \<Rightarrow> pystr" where
  "remove_transkribus_metadata xml = re_sub_empty transkribus_metadata_tag_pattern xml"

subsection \<open>The match written out\<close>

text \<open>
  \<open>tag_rest s\<close> is the remainder behind the match of the pattern at the start of
  \<open>s\<close>, computed without backtracking: skip the whitespace, read the opening literal,
  go to the first \<^verbatim>\<open>>\<close>, and take the closing tag too when only characters other
  than \<^verbatim>\<open><\<close> stand before it. \<open>match_at_pattern\<close> below proves that this is what
  the backtracking matcher reports. \<open>occurs_in l s\<close> is \<^verbatim>\<open>l in s\<close>.
\<close>

definition tag_open :: pystr where "tag_open = ustr ''<TranskribusMetadata''"
definition tag_close :: pystr where "tag_close = ustr ''</TranskribusMetadata>''"

definition tag_rest :: "pystr \<Rightarrow> pystr option" where
  "tag_rest s =
     (let s1 = dropWhile is_space s in
      if \<not> startswith s1 tag_open then None
      else case dropWhile (\<lambda>c. c \<noteq> 62) (drop (length tag_open) s1) of
             [] \<Rightarrow> None
           | g # r \<Rightarrow>
               (let r1 = dropWhile (\<lambda>c. c \<noteq> 60) r in
                if startswith r1 tag_close then Some (drop (length tag_close) r1)
                else Some r))"


fun occurs_in :: "pystr \<Rightarrow> pystr \<Rightarrow> bool" where
  "occurs_in l [] = (l = [])"
| "occurs_in l (c # cs) = (startswith (c # cs) l \<or> occurs_in l cs)"

section \<open>Stripping the metadata tag\<close>

lemmas strip_eval =
  remove_transkribus_metadata_def transkribus_metadata_tag_pattern_def ustr_def
  match_at_def startswith_def is_space_def

text \<open>
  C4. The self-closing and the content-bearing form of the tag are both removed: each
  of the two example texts of the specification reduces to
  \<^verbatim>\<open><p>helloworld</p>\<close>.
\<close>

theorem remove_both_tag_forms:
  "remove_transkribus_metadata
     (ustr ''<p>hello<TranskribusMetadata attr=\"x\"/>world</p>'')
     = ustr ''<p>helloworld</p>''
   \<and> remove_transkribus_metadata
     (ustr ''<p>hello<TranskribusMetadata attr=\"x\">junk</TranskribusMetadata>world</p>'')
     = ustr ''<p>helloworld</p>''"
  by (simp add: strip_eval)

subsection \<open>The matcher reports what \<open>tag_rest\<close> computes\<close>

lemma star_then:
  assumes "\<And>c t. in_cls k c \<Longrightarrow> f (c # t) = []"
  shows "concat (map f (rx_matches (Star k) s)) = f (dropWhile (in_cls k) s)"
  by (induction s) (auto simp: assms)

lemma lit_head:
  "l \<noteq> [] \<Longrightarrow> c \<noteq> hd l \<Longrightarrow> rx_matches (Lit l) (c # t) = []"
  by (cases l) (auto simp: startswith_def)

definition q5 :: rx where
  "q5 = Opt (Seq (Star (Except 60)) (Lit tag_close))"

lemma q5_matches:
  "rx_matches q5 s =
     (let r1 = dropWhile (\<lambda>c. c \<noteq> 60) s in
      if startswith r1 tag_close then [drop (length tag_close) r1] else []) @ [s]"
proof -
  have "concat (map (rx_matches (Lit tag_close)) (rx_matches (Star (Except 60)) s))
        = rx_matches (Lit tag_close) (dropWhile (in_cls (Except 60)) s)"
    by (rule star_then) (simp add: startswith_def tag_close_def ustr_def)
  moreover have "in_cls (Except 60) = (\<lambda>c. c \<noteq> 60)" by (simp add: fun_eq_iff)
  ultimately show ?thesis by (simp add: q5_def Let_def)
qed

definition q3 :: rx where
  "q3 = Seq (Opt (Lit [47])) (Seq (Lit [62]) q5)"

lemma q3_gt: "rx_matches q3 (62 # r) = rx_matches q5 r"
  by (simp add: q3_def startswith_def)

lemma q3_nil: "rx_matches q3 [] = []"
  by (simp add: q3_def startswith_def)

lemma q3_other:
  "c \<noteq> 62 \<Longrightarrow> rx_matches q3 (c # cs) =
     (if c = 47 then (case cs of [] \<Rightarrow> [] | d # r \<Rightarrow> if d = 62 then rx_matches q5 r else []) else [])"
  by (auto simp: q3_def startswith_def split: list.splits)

lemma q2_matches:
  "\<exists>X. concat (map (rx_matches q3) (rx_matches (Star (Except 62)) s)) =
     (case dropWhile (\<lambda>c. c \<noteq> 62) s of [] \<Rightarrow> [] | g # r \<Rightarrow> rx_matches q5 r @ X)"
proof (induction s)
  case Nil
  show ?case by (simp add: q3_nil)
next
  case (Cons c cs)
  show ?case
  proof (cases "c = 62")
    case True
    then show ?thesis by (simp add: q3_gt)
  next
    case False
    from Cons obtain X where X: "concat (map (rx_matches q3) (rx_matches (Star (Except 62)) cs)) =
     (case dropWhile (\<lambda>c. c \<noteq> 62) cs of [] \<Rightarrow> [] | g # r \<Rightarrow> rx_matches q5 r @ X)" by blast
    show ?thesis
    proof (cases "dropWhile (\<lambda>c. c \<noteq> 62) cs")
      case Nil
      have a: "concat (map (rx_matches q3) (rx_matches (Star (Except 62)) cs)) = []"
        by (simp only: X Nil list.case)
      have "cs = [] \<or> hd cs \<noteq> 62" using Nil by (cases cs) (auto split: if_splits)
      then have b: "rx_matches q3 (c # cs) = []" using False by (cases cs) (auto simp: q3_other)
      have d: "dropWhile (\<lambda>c. c \<noteq> 62) (c # cs) = []" using False Nil by simp
      have "concat (map (rx_matches q3) (rx_matches (Star (Except 62)) (c # cs))) = []"
        using False a b by simp
      then show ?thesis by (simp only: d list.case) simp
    next
      case (Cons g r)
      have a: "concat (map (rx_matches q3) (rx_matches (Star (Except 62)) cs)) = rx_matches q5 r @ X"
        by (simp only: X Cons list.case)
      have d: "dropWhile (\<lambda>c. c \<noteq> 62) (c # cs) = g # r" using False Cons by simp
      have "concat (map (rx_matches q3) (rx_matches (Star (Except 62)) (c # cs)))
            = rx_matches q5 r @ (X @ rx_matches q3 (c # cs))"
        using False a by simp
      then show ?thesis by (simp only: d list.case) blast
    qed
  qed
qed

lemma pattern_unfold:
  "transkribus_metadata_tag_pattern =
     Seq (Star Whitespace) (Seq (Lit tag_open) (Seq (Star (Except 62)) q3))"
  by (simp add: transkribus_metadata_tag_pattern_def q3_def q5_def tag_open_def tag_close_def ustr_def)

lemma not_space_60: "\<not> is_space 60" by (simp add: is_space_def)

lemma pattern_matches:
  "\<exists>X. rx_matches transkribus_metadata_tag_pattern s =
     (let s1 = dropWhile is_space s in
      if \<not> startswith s1 tag_open then []
      else case dropWhile (\<lambda>c. c \<noteq> 62) (drop (length tag_open) s1) of
             [] \<Rightarrow> []
           | g # r \<Rightarrow> rx_matches q5 r @ X)"
proof -
  let ?q1 = "Seq (Lit tag_open) (Seq (Star (Except 62)) q3)"
  have sp: "rx_matches (Seq (Star Whitespace) ?q1) s = rx_matches ?q1 (dropWhile (in_cls Whitespace) s)"
  proof -
    have "concat (map (rx_matches ?q1) (rx_matches (Star Whitespace) s))
        = rx_matches ?q1 (dropWhile (in_cls Whitespace) s)"
    proof (rule star_then)
      fix c t assume "in_cls Whitespace c"
      then have "c \<noteq> 60" using not_space_60 by auto
      then have "rx_matches (Lit tag_open) (c # t) = []"
        by (intro lit_head) (simp_all add: tag_open_def ustr_def)
      then show "rx_matches ?q1 (c # t) = []" by simp
    qed
    then show ?thesis by simp
  qed
  have w: "in_cls Whitespace = is_space" by (simp add: fun_eq_iff)
  obtain X where X: "concat (map (rx_matches q3) (rx_matches (Star (Except 62)) (drop (length tag_open) (dropWhile is_space s)))) =
     (case dropWhile (\<lambda>c. c \<noteq> 62) (drop (length tag_open) (dropWhile is_space s)) of [] \<Rightarrow> [] | g # r \<Rightarrow> rx_matches q5 r @ X)"
    using q2_matches by blast
  show ?thesis
    apply (rule exI[where x=X])
    apply (simp only: pattern_unfold sp w Let_def)
    using X by (simp split: list.splits)
qed

lemma match_at_pattern: "match_at transkribus_metadata_tag_pattern s = tag_rest s"
proof -
  obtain X where X: "rx_matches transkribus_metadata_tag_pattern s =
     (let s1 = dropWhile is_space s in
      if \<not> startswith s1 tag_open then []
      else case dropWhile (\<lambda>c. c \<noteq> 62) (drop (length tag_open) s1) of
             [] \<Rightarrow> []
           | g # r \<Rightarrow> rx_matches q5 r @ X)" using pattern_matches by blast
  have len: "length r < length s" if "dropWhile (\<lambda>c. c \<noteq> 62) (drop (length tag_open) (dropWhile is_space s)) = g # r" for g r
  proof -
    have "length (g # r) \<le> length (drop (length tag_open) (dropWhile is_space s))"
      unfolding that[symmetric] by (rule length_dropWhile_le)
    also have "\<dots> \<le> length (dropWhile is_space s)" by simp
    also have "\<dots> \<le> length s" by (rule length_dropWhile_le)
    finally show ?thesis by simp
  qed
  show ?thesis
  proof (cases "startswith (dropWhile is_space s) tag_open")
    case False
    then show ?thesis by (simp add: match_at_def X tag_rest_def Let_def)
  next
    case True
    show ?thesis
    proof (cases "dropWhile (\<lambda>c. c \<noteq> 62) (drop (length tag_open) (dropWhile is_space s))")
      case Nil
      have m: "rx_matches transkribus_metadata_tag_pattern s = []"
        using True by (simp only: X Let_def Nil list.case) simp
      have t: "tag_rest s = None"
        using True by (simp only: tag_rest_def Let_def Nil list.case) simp
      show ?thesis by (simp add: match_at_def m t)
    next
      case (Cons g r)
      have lr: "length r < length s" using len[OF Cons] .
      have "length (dropWhile (\<lambda>c. c \<noteq> 60) r) \<le> length r" by (rule length_dropWhile_le)
      then have lr2: "length (drop (length tag_close) (dropWhile (\<lambda>c. c \<noteq> 60) r)) < length s"
        using lr by simp
      have m: "rx_matches transkribus_metadata_tag_pattern s = rx_matches q5 r @ X"
        using True by (simp only: X Let_def Cons list.case) simp
      have t: "tag_rest s = (if startswith (dropWhile (\<lambda>c. c \<noteq> 60) r) tag_close
                 then Some (drop (length tag_close) (dropWhile (\<lambda>c. c \<noteq> 60) r)) else Some r)"
        using True by (simp only: tag_rest_def Let_def Cons list.case) simp
      show ?thesis
        unfolding match_at_def m t q5_matches Let_def using lr lr2 by simp
    qed
  qed
qed

lemma startswith_iff: "startswith s p \<longleftrightarrow> (\<exists>t. s = p @ t)"
  unfolding startswith_def
  by (metis append_eq_conv_conj append_take_drop_id)

lemma occurs_in_suffix: "startswith u l \<Longrightarrow> occurs_in l (v @ u)"
proof (induction v)
  case Nil
  then show ?case by (cases u) (auto simp: startswith_def)
next
  case (Cons a v)
  then show ?case by simp
qed

lemma tl_tag_open: "c \<in> set (tl tag_open) \<Longrightarrow> \<not> is_space c \<and> c \<noteq> 60"
  by (auto simp: tag_open_def ustr_def is_space_def)

lemma hd_tag_open: "\<exists>r. tag_open = 60 # r"
  by (simp add: tag_open_def ustr_def)

lemma hd_tag_close: "\<exists>r. tag_close = 60 # r"
  by (simp add: tag_close_def ustr_def)

lemma sub_skip:
  assumes "\<And>u v. pre = v @ u \<Longrightarrow> u \<noteq> [] \<Longrightarrow> tag_rest (u @ rest) = None"
  shows "remove_transkribus_metadata (pre @ rest) = pre @ remove_transkribus_metadata rest"
  using assms
proof (induction pre)
  case Nil
  show ?case by simp
next
  case (Cons c p)
  have "tag_rest ((c # p) @ rest) = None" by (rule Cons.prems[of "[]"]) simp_all
  then have m: "match_at transkribus_metadata_tag_pattern (c # p @ rest) = None"
    by (simp add: match_at_pattern)
  have "remove_transkribus_metadata (p @ rest) = p @ remove_transkribus_metadata rest"
  proof (rule Cons.IH)
    fix u v assume "p = v @ u" "u \<noteq> []"
    then show "tag_rest (u @ rest) = None" using Cons.prems[of "c # v" u] by simp
  qed
  then show ?case using m by (simp add: remove_transkribus_metadata_def)
qed

lemma sub_match:
  assumes "s \<noteq> []" and "tag_rest s = Some t"
  shows "remove_transkribus_metadata s = remove_transkribus_metadata t"
  using assms by (cases s) (simp_all add: remove_transkribus_metadata_def match_at_pattern)

lemma no_match_inside:
  assumes ws: "\<forall>c\<in>set ws. is_space c"
    and pre: "pre = [] \<or> \<not> is_space (last pre)"
    and no: "\<not> occurs_in tag_open pre"
    and split: "pre = v @ u" and u: "u \<noteq> []"
  shows "tag_rest (u @ ws @ tag_open @ tail) = None"
proof -
  let ?z = "ws @ tag_open @ tail"
  have lu: "\<not> is_space (last u)" using pre split u by auto
  have mem: "last u \<in> set u" using u by simp
  have dw: "dropWhile is_space (u @ ?z) = dropWhile is_space u @ ?z"
    using mem lu by (rule dropWhile_append1)
  let ?u' = "dropWhile is_space u"
  have u'ne: "?u' \<noteq> []" using mem lu by (auto simp: dropWhile_eq_Nil_conv)
  obtain w where w: "u = w @ ?u'" by (metis takeWhile_dropWhile_id)
  have "\<not> startswith (?u' @ ?z) tag_open"
  proof
    assume "startswith (?u' @ ?z) tag_open"
    then obtain t where t: "?u' @ ?z = tag_open @ t" by (auto simp: startswith_iff)
    have "\<exists>us. ?u' = tag_open @ us \<and> us @ ?z = t \<or> ?u' @ us = tag_open \<and> ?z = us @ t"
      by (rule iffD1[OF append_eq_append_conv2 t])
    then consider us where "?u' = tag_open @ us" | us where "?u' @ us = tag_open" "?z = us @ t" "us \<noteq> []"
      by (metis append_Nil2)
    then show False
    proof cases
      case 1
      then have "startswith ?u' tag_open" by (auto simp: startswith_iff)
      then have "occurs_in tag_open ((v @ w) @ ?u')" by (rule occurs_in_suffix)
      then show False using no split w by simp
    next
      case 2
      have "tl tag_open = tl ?u' @ us" using 2(1) u'ne by (metis tl_append2)
      then have a: "hd us \<in> set (tl tag_open)" using 2(3) by simp
      have "hd us = hd ?z" using 2(2,3) by (metis hd_append2)
      moreover have "is_space (hd ?z) \<or> hd ?z = 60"
      proof (cases ws)
        case Nil
        obtain r where r: "tag_open = 60 # r" using hd_tag_open by blast
        show ?thesis unfolding Nil r by simp
      next
        case (Cons a ws')
        then show ?thesis using ws by simp
      qed
      ultimately show False using tl_tag_open[OF a] by auto
    qed
  qed
  then show ?thesis by (simp add: tag_rest_def Let_def dw)
qed

lemma tag_rest_here:
  assumes ws: "\<forall>c\<in>set ws. is_space c" and attrs: "62 \<notin> set attrs"
  shows "tag_rest (ws @ tag_open @ attrs @ 62 # rest) =
     (if startswith (dropWhile (\<lambda>c. c \<noteq> 60) rest) tag_close
      then Some (drop (length tag_close) (dropWhile (\<lambda>c. c \<noteq> 60) rest)) else Some rest)"
proof -
  let ?y = "tag_open @ attrs @ 62 # rest"
  have "dropWhile is_space (ws @ ?y) = dropWhile is_space ?y"
    using ws by (intro dropWhile_append2) auto
  also have "\<dots> = ?y"
  proof -
    obtain r where r: "tag_open = 60 # r" using hd_tag_open by blast
    show ?thesis unfolding r by (simp add: is_space_def)
  qed
  finally have a: "dropWhile is_space (ws @ ?y) = ?y" .
  have b: "startswith ?y tag_open" by (auto simp: startswith_iff)
  have c: "drop (length tag_open) ?y = attrs @ 62 # rest" by simp
  have d: "dropWhile (\<lambda>c. c \<noteq> 62) (attrs @ 62 # rest) = 62 # rest"
    using attrs by (induction attrs) auto
  show ?thesis
    unfolding tag_rest_def Let_def a c d using b by simp
qed

lemma close_found:
  assumes "60 \<notin> set inner"
  shows "dropWhile (\<lambda>c. c \<noteq> 60) (inner @ tag_close @ post) = tag_close @ post"
proof -
  have "dropWhile (\<lambda>c. c \<noteq> 60) (inner @ tag_close @ post) = dropWhile (\<lambda>c. c \<noteq> 60) (tag_close @ post)"
    using assms by (intro dropWhile_append2) auto
  also have "\<dots> = tag_close @ post"
  proof -
    obtain r where r: "tag_close = 60 # r" using hd_tag_close by blast
    show ?thesis unfolding r by simp
  qed
  finally show ?thesis .
qed

text \<open>
  C10. The whitespace run in front of a tag goes with the tag. Let \<open>pre\<close> be text in
  which the opening literal does not occur and which does not end in whitespace, \<open>ws\<close>
  any run of whitespace, \<open>attrs\<close> free of \<^verbatim>\<open>>\<close> and \<open>inner\<close> free of
  \<^verbatim>\<open><\<close>. Then a content-bearing tag behind \<open>pre @ ws\<close> is removed together
  with \<open>ws\<close>, and so is a tag with no closing part behind it: the output is \<open>pre\<close>
  followed directly by the stripped rest. The rest \<open>post\<close> is arbitrary, so the same
  holds for the next tag in it.
\<close>

theorem whitespace_before_tag_removed:
  assumes ws: "\<forall>c\<in>set ws. is_space c"
    and pre: "pre = [] \<or> \<not> is_space (last pre)"
    and no: "\<not> occurs_in (ustr ''<TranskribusMetadata'') pre"
    and attrs: "of_char CHR ''>'' \<notin> set attrs"
    and inner: "of_char CHR ''<'' \<notin> set inner"
  shows "remove_transkribus_metadata
           (pre @ ws @ ustr ''<TranskribusMetadata'' @ attrs @ ustr ''>'' @ inner
              @ ustr ''</TranskribusMetadata>'' @ post)
         = pre @ remove_transkribus_metadata post
       \<and> (\<not> startswith (dropWhile (\<lambda>c. c \<noteq> of_char CHR ''<'') post) (ustr ''</TranskribusMetadata>'')
          \<longrightarrow> remove_transkribus_metadata
                (pre @ ws @ ustr ''<TranskribusMetadata'' @ attrs @ ustr ''>'' @ post)
              = pre @ remove_transkribus_metadata post)"
proof -
  have gt: "ustr ''>'' = [62]" and c62: "of_char CHR ''>'' = (62::nat)" and c60: "of_char CHR ''<'' = (60::nat)"
    by (simp_all add: ustr_def)
  have a62: "62 \<notin> set attrs" using attrs c62 by simp
  have i60: "60 \<notin> set inner" using inner c60 by simp
  have no': "\<not> occurs_in tag_open pre" using no by (simp add: tag_open_def)
  have skip: "remove_transkribus_metadata (pre @ ws @ tag_open @ tail)
      = pre @ remove_transkribus_metadata (ws @ tag_open @ tail)" for tail
    by (rule sub_skip) (rule no_match_inside[OF ws pre no'])
  have ne: "ws @ tag_open @ tail \<noteq> []" for tail by (simp add: tag_open_def ustr_def)
  have one: "remove_transkribus_metadata (pre @ ws @ tag_open @ attrs @ [62] @ inner @ tag_close @ post)
         = pre @ remove_transkribus_metadata post"
  proof -
    have "tag_rest (ws @ tag_open @ attrs @ 62 # (inner @ tag_close @ post)) = Some post"
      by (simp add: tag_rest_here[OF ws a62] close_found[OF i60] startswith_iff)
    then have "remove_transkribus_metadata (ws @ tag_open @ attrs @ 62 # (inner @ tag_close @ post))
       = remove_transkribus_metadata post"
      by (intro sub_match ne)
    then show ?thesis using skip[of "attrs @ [62] @ inner @ tag_close @ post"] by simp
  qed
  have two: "remove_transkribus_metadata (pre @ ws @ tag_open @ attrs @ [62] @ post)
              = pre @ remove_transkribus_metadata post"
    if "\<not> startswith (dropWhile (\<lambda>c. c \<noteq> 60) post) tag_close"
  proof -
    have "tag_rest (ws @ tag_open @ attrs @ 62 # post) = Some post"
      using that by (simp add: tag_rest_here[OF ws a62])
    then have "remove_transkribus_metadata (ws @ tag_open @ attrs @ 62 # post)
       = remove_transkribus_metadata post"
      by (intro sub_match ne)
    then show ?thesis using skip[of "attrs @ [62] @ post"] by simp
  qed
  show ?thesis
    unfolding tag_open_def[symmetric] tag_close_def[symmetric] gt c60
    using one two by simp
qed

theorem whitespace_before_tag_removed_witness:
  "list_all is_space [32, 10]
   \<and> \<not> is_space (last (ustr ''<p>hello''))
   \<and> \<not> occurs_in (ustr ''<TranskribusMetadata'') (ustr ''<p>hello'')
   \<and> of_char CHR ''>'' \<notin> set (ustr '' a=\"x\"'')
   \<and> of_char CHR ''<'' \<notin> set (ustr ''junk'')
   \<and> remove_transkribus_metadata
        (ustr ''<p>hello'' @ [32, 10]
           @ ustr ''<TranskribusMetadata a=\"x\">junk</TranskribusMetadata>world</p>'')
      = ustr ''<p>hello'' @ remove_transkribus_metadata (ustr ''world</p>'')
   \<and> remove_transkribus_metadata
        (ustr ''<p>hello'' @ [32, 10] @ ustr ''<TranskribusMetadata a=\"x\">world</p>'')
      = ustr ''<p>hello'' @ remove_transkribus_metadata (ustr ''world</p>'')"
  using whitespace_before_tag_removed
    [of "[32, 10]" "ustr ''<p>hello''" "ustr '' a=\"x\"''" "ustr ''junk''" "ustr ''world</p>''"]
  by (simp add: strip_eval)

section \<open>Errors and generators\<close>

text \<open>
  An exception is a value of \<open>error\<close>; a computation that may raise returns
  \<open>error + 'a\<close>. A generator is modelled by what it produces when it is consumed to its
  end: the items it yields, in order, and the exception that ends it, if any. An item
  yielded before an exception is in the list.
\<close>

datatype error =
    NotADirectoryError | FileNotFoundError | IsADirectoryError | UnicodeDecodeError
  | OSError | ExpatError | KeyError | TypeError | ValueError | AttributeError

type_synonym 'a gen = "'a list \<times> error option"

text \<open>\<open>chain\<close> runs generators one after the other, as \<^verbatim>\<open>yield from\<close> over each does.\<close>

fun chain :: "'a gen list \<Rightarrow> 'a gen" where
  "chain [] = ([], None)"
| "chain ((xs, Some e) # gs) = (xs, Some e)"
| "chain ((xs, None) # gs) = (case chain gs of (ys, e) \<Rightarrow> (xs @ ys, e))"

definition bindE :: "error + 'a \<Rightarrow> ('a \<Rightarrow> error + 'b) \<Rightarrow> error + 'b" where
  "bindE m f = (case m of Inl e \<Rightarrow> Inl e | Inr x \<Rightarrow> f x)"

fun each :: "('a \<Rightarrow> error + 'b) \<Rightarrow> 'a list \<Rightarrow> error + 'b list" where
  "each f [] = Inr []"
| "each f (x # xs) = bindE (f x) (\<lambda>y. bindE (each f xs) (\<lambda>ys. Inr (y # ys)))"

section \<open>The file system\<close>

text \<open>
  A path is the list of its components below the root of the file system. A directory
  lists its entries in the order in which \<^verbatim>\<open>iterdir()\<close> returns them. A file carries
  the text that \<^verbatim>\<open>read_text("utf-8")\<close> returns, or \<open>None\<close> when its bytes are not
  UTF-8. \<open>Special\<close> is an entry that is neither a file nor a directory. Symbolic links
  are not modelled.
\<close>

type_synonym path = "pystr list"

datatype fsnode = File "pystr option" | Dir "(pystr \<times> fsnode) list" | Special

fun is_file :: "fsnode \<Rightarrow> bool" where
  "is_file (File t) = True"
| "is_file n = False"

fun is_dir :: "fsnode \<Rightarrow> bool" where
  "is_dir (Dir kids) = True"
| "is_dir n = False"

fun walk :: "fsnode list \<Rightarrow> fsnode \<Rightarrow> path \<Rightarrow> error + fsnode" where
  "walk up cur [] = Inr cur"
| "walk up (Dir kids) (c # cs) =
     (if c = ustr ''..'' then (case up of [] \<Rightarrow> walk [] (Dir kids) cs | d # ds \<Rightarrow> walk ds d cs)
      else case map_of kids c of
             None \<Rightarrow> Inl FileNotFoundError
           | Some n \<Rightarrow> walk (Dir kids # up) n cs)"
| "walk up n (c # cs) = Inl NotADirectoryError"

definition node_at :: "fsnode \<Rightarrow> path \<Rightarrow> fsnode option" where
  "node_at fs p = (case walk [] fs p of Inl e \<Rightarrow> None | Inr n \<Rightarrow> Some n)"

definition read_text :: "fsnode \<Rightarrow> path \<Rightarrow> error + pystr" where
  "read_text fs p =
     bindE (walk [] fs p) (\<lambda>n. case n of
        File (Some t) \<Rightarrow> Inr t
      | File None \<Rightarrow> Inl UnicodeDecodeError
      | Dir kids \<Rightarrow> Inl IsADirectoryError
      | Special \<Rightarrow> Inl OSError)"

text \<open>
  \<^verbatim>\<open>def find_file(path: Path, name: str) -> Generator[Path, None, None]:
      if not path.is_dir():
          raise NotADirectoryError(path)
      items = [f for f in path.iterdir() if f.is_file() or f.is_dir()]
      file = next((f for f in items if f.is_file() and f.name == name), None)
      if file:
          yield file
      else:
          yield from (f for d in items if d.is_dir() for f in find_file(d, name))\<close>

  The second argument is what the path names in the file system, \<open>None\<close> when nothing is
  there.
\<close>

fun find_file :: "path \<Rightarrow> fsnode option \<Rightarrow> pystr \<Rightarrow> path gen" where
  "find_file p (Some (Dir kids)) name =
     (let items = filter (\<lambda>(n, f). is_file f \<or> is_dir f) kids in
      case find (\<lambda>(n, f). is_file f \<and> n = name) items of
        Some (n, f) \<Rightarrow> ([p @ [n]], None)
      | None \<Rightarrow>
          chain (map (\<lambda>(n, d). find_file (p @ [n]) (Some d) name)
                     (filter (\<lambda>(n, d). is_dir d) items)))"
| "find_file p nd name = ([], Some NotADirectoryError)"


lemma chain_ok:
  "\<forall>g\<in>set gs. snd g = None \<Longrightarrow> chain gs = (concat (map fst gs), None)"
proof (induction gs)
  case Nil
  show ?case by simp
next
  case (Cons g gs)
  obtain xs e where g: "g = (xs, e)" by (cases g)
  with Cons show ?case by simp
qed

lemma find_file_dir_ok_aux:
  "nd = Some (Dir kids) \<Longrightarrow> snd (find_file p nd name) = None"
proof (induction p nd name arbitrary: kids rule: find_file.induct)
  case (1 p ks name)
  let ?items = "filter (\<lambda>(n, f). is_file f \<or> is_dir f) ks"
  show ?case
  proof (cases "find (\<lambda>(n, f). is_file f \<and> n = name) ?items")
    case (Some a)
    then show ?thesis by (cases a) simp
  next
    case None
    have "\<forall>g\<in>set (map (\<lambda>(n, d). find_file (p @ [n]) (Some d) name)
                     (filter (\<lambda>(n, d). is_dir d) ?items)). snd g = None"
    proof
      fix g assume "g \<in> set (map (\<lambda>(n, d). find_file (p @ [n]) (Some d) name)
                     (filter (\<lambda>(n, d). is_dir d) ?items))"
      then obtain n d where mem: "(n, d) \<in> set (filter (\<lambda>(n, d). is_dir d) ?items)"
        and g: "g = find_file (p @ [n]) (Some d) name"
        by auto
      from mem have "is_dir d" by simp
      then obtain ks' where d: "d = Dir ks'" by (cases d) auto
      have "snd (find_file (p @ [n]) (Some d) name) = None"
        by (rule "1.IH"[OF refl None mem refl]) (simp add: d)
      then show "snd g = None" using g by simp
    qed
    then show ?thesis using None by (simp add: chain_ok)
  qed
qed simp_all

lemma find_file_dir_ok: "snd (find_file p (Some (Dir kids)) name) = None"
  by (rule find_file_dir_ok_aux) simp

text \<open>
  C3. In a directory that has a file with the target name among its entries the
  locator yields that file and nothing else, whatever its subdirectories hold. In a
  directory with no such file it yields what its subdirectories yield, one subdirectory
  after the other in listing order, and ends without an exception.
\<close>

theorem find_file_stops_at_first_match:
  "((\<exists>f. (name, f) \<in> set kids \<and> is_file f) \<longrightarrow>
      find_file p (Some (Dir kids)) name = ([p @ [name]], None))
   \<and> (\<not> (\<exists>f. (name, f) \<in> set kids \<and> is_file f) \<longrightarrow>
      find_file p (Some (Dir kids)) name =
        (concat (map (\<lambda>(n, d). fst (find_file (p @ [n]) (Some d) name))
                     (filter (\<lambda>(n, d). is_dir d) kids)), None))"
proof (intro conjI impI)
  let ?items = "filter (\<lambda>(n, f). is_file f \<or> is_dir f) kids"
  let ?P = "\<lambda>(n, f). is_file f \<and> n = name"
  assume "\<exists>f. (name, f) \<in> set kids \<and> is_file f"
  then obtain f where f: "(name, f) \<in> set kids" "is_file f" by blast
  then have "\<exists>x. x \<in> set ?items \<and> ?P x" by (intro exI[of _ "(name, f)"]) simp
  then obtain a where a: "find ?P ?items = Some a" by (cases "find ?P ?items") (auto simp: find_None_iff)
  then have "?P a" by (auto simp: find_Some_iff)
  then obtain g where "a = (name, g)" by (cases a) auto
  then show "find_file p (Some (Dir kids)) name = ([p @ [name]], None)" using a by simp
next
  let ?items = "filter (\<lambda>(n, f). is_file f \<or> is_dir f) kids"
  let ?P = "\<lambda>(n, f). is_file f \<and> n = name"
  let ?gs = "map (\<lambda>(n, d). find_file (p @ [n]) (Some d) name) (filter (\<lambda>(n, d). is_dir d) kids)"
  assume "\<not> (\<exists>f. (name, f) \<in> set kids \<and> is_file f)"
  then have none: "find ?P ?items = None" by (auto simp: find_None_iff)
  have flt: "filter (\<lambda>(n, d). is_dir d) ?items = filter (\<lambda>(n, d). is_dir d) kids"
    by (induction kids) auto
  have "\<forall>g\<in>set ?gs. snd g = None"
  proof
    fix g assume "g \<in> set ?gs"
    then obtain n d where nd: "is_dir d" "g = find_file (p @ [n]) (Some d) name" by auto
    then obtain ks where "d = Dir ks" by (cases d) auto
    then show "snd g = None" using nd find_file_dir_ok by simp
  qed
  then have ch: "chain ?gs = (concat (map fst ?gs), None)" by (rule chain_ok)
  have mp: "map fst ?gs = map (\<lambda>(n, d). fst (find_file (p @ [n]) (Some d) name))
                     (filter (\<lambda>(n, d). is_dir d) kids)" by auto
  have res: "find_file p (Some (Dir kids)) name = chain ?gs"
    using none flt by simp
  show "find_file p (Some (Dir kids)) name =
        (concat (map (\<lambda>(n, d). fst (find_file (p @ [n]) (Some d) name))
                     (filter (\<lambda>(n, d). is_dir d) kids)), None)"
    by (simp only: res ch mp)
qed

text \<open>
  A tree with a nested marker below a bundle, a directory named like the marker, and a
  marker two levels down.
\<close>

definition bundle_a :: "(pystr \<times> fsnode) list" where
  "bundle_a = [(ustr ''metadata.xml'', File (Some [])),
               (ustr ''old'', Dir [(ustr ''metadata.xml'', File (Some []))])]"

definition tree_kids :: "(pystr \<times> fsnode) list" where
  "tree_kids = [(ustr ''a'', Dir bundle_a),
                (ustr ''notes.txt'', File (Some [])),
                (ustr ''b'', Dir [(ustr ''metadata.xml'', Dir []),
                                  (ustr ''c'', Dir [(ustr ''metadata.xml'', File (Some []))])])]"

theorem find_file_stops_at_first_match_witness:
  "find_file [ustr ''a''] (Some (Dir bundle_a)) (ustr ''metadata.xml'')
     = ([[ustr ''a'', ustr ''metadata.xml'']], None)
   \<and> find_file [] (Some (Dir tree_kids)) (ustr ''metadata.xml'')
     = ([[ustr ''a'', ustr ''metadata.xml''],
         [ustr ''b'', ustr ''c'', ustr ''metadata.xml'']], None)"
  using find_file_stops_at_first_match[of "ustr ''metadata.xml''" bundle_a "[ustr ''a'']"]
        find_file_stops_at_first_match[of "ustr ''metadata.xml''" tree_kids "[]"]
  by (simp add: bundle_a_def tree_kids_def ustr_def)

section \<open>Python values\<close>

text \<open>
  The values the XML reader hands to the program, and the values the program builds
  from them: \<^verbatim>\<open>None\<close>, integers, strings, lists, and dictionaries with string keys in
  insertion order.
\<close>

datatype pyval = PNone | PInt int | PStr pystr | PList "pyval list" | PDict "(pystr \<times> pyval) list"

text \<open>
  \<^verbatim>\<open>v[k]\<close> for a string key \<open>k\<close>: only a dictionary can answer; a string, a list
  or \<^verbatim>\<open>None\<close> raises \<^verbatim>\<open>TypeError\<close>. \<open>py_iter\<close> is what a \<^verbatim>\<open>for\<close> loop runs
  over: the elements of a list, the keys of a dictionary, the characters of a string.
\<close>

fun getitem :: "pyval \<Rightarrow> pystr \<Rightarrow> error + pyval" where
  "getitem (PDict kvs) k = (case map_of kvs k of None \<Rightarrow> Inl KeyError | Some v \<Rightarrow> Inr v)"
| "getitem v k = Inl TypeError"

fun py_iter :: "pyval \<Rightarrow> error + pyval list" where
  "py_iter (PList xs) = Inr xs"
| "py_iter (PDict kvs) = Inr (map (\<lambda>(k, v). PStr k) kvs)"
| "py_iter (PStr s) = Inr (map (\<lambda>c. PStr [c]) s)"
| "py_iter v = Inl TypeError"

text \<open>
  \<^verbatim>\<open>int(v)\<close>: a string is stripped of surrounding whitespace and read as an optional
  sign and decimal digits, where single underscores may stand between digits; anything
  else in the string is a \<^verbatim>\<open>ValueError\<close>, and a value that is neither a string nor a
  number a \<^verbatim>\<open>TypeError\<close>. Only the ASCII digits are read as digits here, and the
  interpreter's limit on the number of digits is left out.
\<close>

definition strip :: "pystr \<Rightarrow> pystr" where
  "strip s = rev (dropWhile is_space (rev (dropWhile is_space s)))"

definition is_digit :: "nat \<Rightarrow> bool" where
  "is_digit c = (48 \<le> c \<and> c \<le> 57)"

fun digits_value :: "nat \<Rightarrow> pystr \<Rightarrow> nat option" where
  "digits_value acc [] = Some acc"
| "digits_value acc [c] = (if is_digit c then Some (10 * acc + (c - 48)) else None)"
| "digits_value acc (c # d # ds) =
     (if is_digit c then digits_value (10 * acc + (c - 48)) (d # ds)
      else if c = 95 \<and> is_digit d then digits_value (10 * acc + (d - 48)) ds
      else None)"

definition int_of_str :: "pystr \<Rightarrow> int option" where
  "int_of_str s =
     (let t = strip s;
          neg = (t \<noteq> [] \<and> hd t = 45);
          u = (if t \<noteq> [] \<and> (hd t = 45 \<or> hd t = 43) then tl t else t)
      in case u of
           [] \<Rightarrow> None
         | d # ds \<Rightarrow>
             if is_digit d
             then map_option (\<lambda>n. if neg then - int n else int n) (digits_value (d - 48) ds)
             else None)"

fun py_int :: "pyval \<Rightarrow> error + int" where
  "py_int (PInt n) = Inr n"
| "py_int (PStr s) = (case int_of_str s of None \<Rightarrow> Inl ValueError | Some n \<Rightarrow> Inr n)"
| "py_int v = Inl TypeError"

section \<open>Percent decoding\<close>

text \<open>
  \<^verbatim>\<open>urllib.parse.unquote\<close>. Within every run of ASCII characters each \<^verbatim>\<open>%xx\<close> with
  two hexadecimal digits becomes the byte \<open>xx\<close>; a \<^verbatim>\<open>%\<close> not followed by two such
  digits stays. The bytes of the run are then decoded as UTF-8, every malformed sequence
  giving one U+FFFD (\<^verbatim>\<open>errors='replace'\<close>). Characters outside ASCII pass unchanged.
  A string without \<^verbatim>\<open>%\<close> is returned as it is.
\<close>

definition is_hexdig :: "nat \<Rightarrow> bool" where
  "is_hexdig c = ((48 \<le> c \<and> c \<le> 57) \<or> (65 \<le> c \<and> c \<le> 70) \<or> (97 \<le> c \<and> c \<le> 102))"

definition hexval :: "nat \<Rightarrow> nat" where
  "hexval c = (if c \<le> 57 then c - 48 else if c \<le> 70 then c - 55 else c - 87)"

fun unquote_to_bytes :: "pystr \<Rightarrow> nat list" where
  "unquote_to_bytes (c # a # b # r) =
     (if c = 37 \<and> is_hexdig a \<and> is_hexdig b
      then (16 * hexval a + hexval b) # unquote_to_bytes r
      else c # unquote_to_bytes (a # b # r))"
| "unquote_to_bytes s = s"

definition is_cont :: "nat \<Rightarrow> bool" where
  "is_cont b = (128 \<le> b \<and> b < 192)"

definition second_ok3 :: "nat \<Rightarrow> nat \<Rightarrow> bool" where
  "second_ok3 b c = (is_cont c \<and> \<not> (if c < 160 then b = 224 else b = 237))"

definition second_ok4 :: "nat \<Rightarrow> nat \<Rightarrow> bool" where
  "second_ok4 b c = (is_cont c \<and> \<not> (if c < 144 then b = 240 else b = 244))"

fun utf8_decode :: "nat list \<Rightarrow> pystr" where
  "utf8_decode [] = []"
| "utf8_decode (b # bs) =
    (if b < 128 then b # utf8_decode bs
     else if b < 194 \<or> 245 \<le> b then 65533 # utf8_decode bs
     else if b < 224 then
       (case bs of
          [] \<Rightarrow> [65533]
        | c # r \<Rightarrow>
            if is_cont c then ((b - 192) * 64 + (c - 128)) # utf8_decode r
            else 65533 # utf8_decode bs)
     else if b < 240 then
       (case bs of
          [] \<Rightarrow> [65533]
        | c # r \<Rightarrow>
            if \<not> second_ok3 b c then 65533 # utf8_decode bs
            else (case r of
                    [] \<Rightarrow> [65533]
                  | d # r' \<Rightarrow>
                      if is_cont d
                      then ((b - 224) * 4096 + (c - 128) * 64 + (d - 128)) # utf8_decode r'
                      else 65533 # utf8_decode r))
     else
       (case bs of
          [] \<Rightarrow> [65533]
        | c # r \<Rightarrow>
            if \<not> second_ok4 b c then 65533 # utf8_decode bs
            else (case r of
                    [] \<Rightarrow> [65533]
                  | d # r' \<Rightarrow>
                      if \<not> is_cont d then 65533 # utf8_decode r
                      else (case r' of
                              [] \<Rightarrow> [65533]
                            | e # r'' \<Rightarrow>
                                if is_cont e
                                then ((b - 240) * 262144 + (c - 128) * 4096
                                        + (d - 128) * 64 + (e - 128)) # utf8_decode r''
                                else 65533 # utf8_decode r'))))"

fun unquote_runs :: "pystr \<Rightarrow> pystr \<Rightarrow> pystr" where
  "unquote_runs run [] = utf8_decode (unquote_to_bytes run)"
| "unquote_runs run (c # cs) =
     (if c < 128 then unquote_runs (run @ [c]) cs
      else utf8_decode (unquote_to_bytes run) @ c # unquote_runs [] cs)"

definition unquote_str :: "pystr \<Rightarrow> pystr" where
  "unquote_str s = (if 37 \<notin> set s then s else unquote_runs [] s)"

fun unquote :: "pyval \<Rightarrow> error + pystr" where
  "unquote (PStr s) = Inr (unquote_str s)"
| "unquote (PList xs) = Inl (if PStr [37] \<in> set xs then TypeError else AttributeError)"
| "unquote (PDict kvs) = Inl (if [37] \<in> fst ` set kvs then TypeError else AttributeError)"
| "unquote v = Inl TypeError"

section \<open>XML documents as dictionaries\<close>

text \<open>
  \<^verbatim>\<open>from xmltodict import parse as parse_xml\<close>. The library is not part of the
  repository; this is its documented behaviour on a document that has already been
  split into elements, attributes and character data. \<open>expat\<close>, a parameter of the
  model, is that splitting; it gives \<open>None\<close> for text that is not well-formed XML.

  An element becomes a dictionary holding its attributes under \<^verbatim>\<open>@name\<close>, its child
  elements under their names, and its stripped character data under \<^verbatim>\<open>#text\<close>; an
  element with neither attributes nor child elements becomes its stripped text, or
  \<^verbatim>\<open>None\<close> when that is empty. \<open>push_data\<close> stores a child: the first one under a
  name is stored as it is, unless the name is in \<^verbatim>\<open>force_list\<close>, where it is stored
  as a list of one; a later one under the same name turns the entry into a list.
\<close>

datatype xml = Text pystr | Elem pystr "(pystr \<times> pystr) list" "xml list"

fun is_elem :: "xml \<Rightarrow> bool" where
  "is_elem (Elem n a k) = True"
| "is_elem (Text t) = False"

fun elem_name :: "xml \<Rightarrow> pystr" where
  "elem_name (Elem n a k) = n"
| "elem_name (Text t) = []"

fun text_of :: "xml \<Rightarrow> pystr" where
  "text_of (Text t) = t"
| "text_of (Elem n a k) = []"

definition push_data ::
  "pystr list \<Rightarrow> (pystr \<times> pyval) list \<Rightarrow> pystr \<Rightarrow> pyval \<Rightarrow> (pystr \<times> pyval) list" where
  "push_data force_list item key data =
     (case map_of item key of
        None \<Rightarrow> item @ [(key, if key \<in> set force_list then PList [data] else data)]
      | Some (PList vs) \<Rightarrow> AList.update key (PList (vs @ [data])) item
      | Some v \<Rightarrow> AList.update key (PList [v, data]) item)"

fun to_value :: "pystr list \<Rightarrow> xml \<Rightarrow> pyval" where
  "to_value force_list (Elem name attrs kids) =
     (let item0 = foldl (\<lambda>d (k, v). AList.update (64 # k) (PStr v) d) [] attrs;
          item = foldl (\<lambda>d (n, v). push_data force_list d n v) item0
                   (map (\<lambda>k. (elem_name k, to_value force_list k)) (filter is_elem kids));
          data = strip (concat (map text_of kids))
      in if attrs = [] \<and> filter is_elem kids = []
         then (if data = [] then PNone else PStr data)
         else PDict (if data = [] then item else push_data force_list item (ustr ''#text'') (PStr data)))"
| "to_value force_list (Text t) = PStr t"

definition parse_xml :: "(pystr \<Rightarrow> xml option) \<Rightarrow> pystr list \<Rightarrow> pystr \<Rightarrow> error + pyval" where
  "parse_xml expat force_list text =
     (case expat text of
        Some (Elem name attrs kids) \<Rightarrow>
          Inr (PDict (push_data force_list [] name (to_value force_list (Elem name attrs kids))))
      | _ \<Rightarrow> Inl ExpatError)"

section \<open>Paths\<close>

text \<open>
  \<^verbatim>\<open>Path.joinpath\<close>, \<^verbatim>\<open>str(path)\<close> and \<^verbatim>\<open>Path.parent\<close> on POSIX paths: empty
  components and \<^verbatim>\<open>.\<close> are dropped, a relative part that starts with a slash replaces
  the base.
\<close>

fun split_on :: "nat \<Rightarrow> pystr \<Rightarrow> pystr list" where
  "split_on sep [] = [[]]"
| "split_on sep (c # cs) =
     (if c = sep then [] # split_on sep cs
      else case split_on sep cs of
             w # ws \<Rightarrow> (c # w) # ws
           | [] \<Rightarrow> [[c]])"

definition parts :: "pystr \<Rightarrow> path" where
  "parts s = filter (\<lambda>c. c \<noteq> [] \<and> c \<noteq> ustr ''.'') (split_on 47 s)"

definition joinpath :: "path \<Rightarrow> pystr \<Rightarrow> path" where
  "joinpath base rel = (if startswith rel (ustr ''/'') then parts rel else base @ parts rel)"

definition str_path :: "path \<Rightarrow> pystr" where
  "str_path p = (if p = [] then ustr ''/'' else concat (map (\<lambda>c. 47 # c) p))"

definition parent :: "path \<Rightarrow> path" where
  "parent p = butlast p"

section \<open>The record assembler\<close>

text \<open>
  The dictionary a page yields, with its keys \<^verbatim>\<open>image\<close>, \<^verbatim>\<open>doc_id\<close>,
  \<^verbatim>\<open>sequence\<close>, \<^verbatim>\<open>alto\<close> and \<^verbatim>\<open>page\<close>. The value under \<^verbatim>\<open>sequence\<close> is whatever
  \<^verbatim>\<open>struct["@ORDER"]\<close> is, so the field holds a Python value.
\<close>

record page_record =
  r_image :: pystr
  r_doc_id :: int
  r_sequence :: pyval
  r_alto :: pystr
  r_page :: pystr

text \<open>
  \<^verbatim>\<open>next((i for f in struct["ns3:fptr"]
          if (i := f["ns3:area"]["@FILEID"]).startswith(prefix)), None)\<close>

  The scan stops at the first match, so a malformed pointer behind it is never looked
  at.
\<close>

fun scan_fileid :: "pystr \<Rightarrow> pyval list \<Rightarrow> error + pystr option" where
  "scan_fileid pre [] = Inr None"
| "scan_fileid pre (f # fs) =
     bindE (getitem f (ustr ''ns3:area'')) (\<lambda>area.
     bindE (getitem area (ustr ''@FILEID'')) (\<lambda>i.
       case i of
         PStr s \<Rightarrow> if startswith s pre then Inr (Some s) else scan_fileid pre fs
       | _ \<Rightarrow> Inl AttributeError))"

definition next_fileid :: "pystr \<Rightarrow> pyval \<Rightarrow> error + pystr option" where
  "next_fileid pre struct =
     bindE (getitem struct (ustr ''ns3:fptr'')) (\<lambda>v.
     bindE (py_iter v) (scan_fileid pre))"

text \<open>
  \<^verbatim>\<open>paths = {file["@ID"]: unquote(file["ns3:FLocat"]["@ns2:href"])
           for group in mets["ns3:mets"]["ns3:fileSec"]["ns3:fileGrp"]["ns3:fileGrp"]
           for file in group["ns3:file"]}\<close>

  The dictionary is complete before the first page is looked at; a later entry under a
  key replaces an earlier one.
\<close>

definition hashable :: "pyval \<Rightarrow> bool" where
  "hashable v = (case v of PList xs \<Rightarrow> False | PDict kvs \<Rightarrow> False | _ \<Rightarrow> True)"

definition file_entry :: "pyval \<Rightarrow> error + (pyval \<times> pystr)" where
  "file_entry file =
     bindE (getitem file (ustr ''@ID'')) (\<lambda>k.
     if \<not> hashable k then Inl TypeError
     else bindE (getitem file (ustr ''ns3:FLocat'')) (\<lambda>loc.
          bindE (getitem loc (ustr ''@ns2:href'')) (\<lambda>href.
          bindE (unquote href) (\<lambda>v. Inr (k, v)))))"

definition group_entries :: "pyval \<Rightarrow> error + (pyval \<times> pystr) list" where
  "group_entries grp =
     bindE (getitem grp (ustr ''ns3:file'')) (\<lambda>fs.
     bindE (py_iter fs) (each file_entry))"

definition dict_of :: "(pyval \<times> pystr) list \<Rightarrow> (pyval \<rightharpoonup> pystr)" where
  "dict_of kvs = foldl (\<lambda>m (k, v). m(k \<mapsto> v)) Map.empty kvs"

definition build_paths :: "pyval \<Rightarrow> error + (pyval \<rightharpoonup> pystr)" where
  "build_paths mets =
     bindE (getitem mets (ustr ''ns3:mets'')) (\<lambda>m.
     bindE (getitem m (ustr ''ns3:fileSec'')) (\<lambda>sec.
     bindE (getitem sec (ustr ''ns3:fileGrp'')) (\<lambda>outer.
     bindE (getitem outer (ustr ''ns3:fileGrp'')) (\<lambda>groups.
     bindE (py_iter groups) (\<lambda>gs.
     bindE (each group_entries gs) (\<lambda>es. Inr (dict_of (concat es))))))))"

text \<open>
  \<^verbatim>\<open>paths[file_id]\<close>, where \<open>file_id\<close> is \<^verbatim>\<open>None\<close> or a string.
\<close>

definition lookup_path :: "(pyval \<rightharpoonup> pystr) \<Rightarrow> pystr option \<Rightarrow> error + pystr" where
  "lookup_path paths file_id =
     (case paths (case file_id of None \<Rightarrow> PNone | Some s \<Rightarrow> PStr s) of
        None \<Rightarrow> Inl KeyError
      | Some p \<Rightarrow> Inr p)"

text \<open>
  One page:
  \<^verbatim>\<open>yield {
      "image": str(metadata_root.joinpath(paths[img_id])),
      "doc_id": doc_id,
      "sequence": struct["@ORDER"],
      "alto": metadata_root.joinpath(paths[alto_id]).read_text("utf-8") if alto_id else "",
      "page": remove_transkribus_metadata(
                  metadata_root.joinpath(paths[page_id]).read_text("utf-8")) if page_id else "",
  }\<close>
  The three ids are found first, then the values are computed in the order of the keys.
\<close>

definition truthy :: "pystr option \<Rightarrow> bool" where
  "truthy file_id = (case file_id of None \<Rightarrow> False | Some s \<Rightarrow> s \<noteq> [])"

definition read_layer ::
  "fsnode \<Rightarrow> path \<Rightarrow> (pyval \<rightharpoonup> pystr) \<Rightarrow> pystr option \<Rightarrow> error + pystr" where
  "read_layer fs metadata_root paths file_id =
     bindE (lookup_path paths file_id) (\<lambda>p. read_text fs (joinpath metadata_root p))"

definition page_entry ::
  "fsnode \<Rightarrow> path \<Rightarrow> (pyval \<rightharpoonup> pystr) \<Rightarrow> int \<Rightarrow> pyval \<Rightarrow> error + page_record" where
  "page_entry fs metadata_root paths docid struct =
     bindE (next_fileid (ustr ''IMG_'') struct) (\<lambda>img_id.
     bindE (next_fileid (ustr ''ALTO_'') struct) (\<lambda>alto_id.
     bindE (next_fileid (ustr ''PAGEXML_'') struct) (\<lambda>page_id.
     bindE (lookup_path paths img_id) (\<lambda>img.
     bindE (getitem struct (ustr ''@ORDER'')) (\<lambda>ord.
     bindE (if truthy alto_id then read_layer fs metadata_root paths alto_id
            else Inr []) (\<lambda>alto_text.
     bindE (if truthy page_id
            then bindE (read_layer fs metadata_root paths page_id)
                   (\<lambda>t. Inr (remove_transkribus_metadata t))
            else Inr []) (\<lambda>page_text.
       Inr \<lparr> r_image = str_path (joinpath metadata_root img),
             r_doc_id = docid,
             r_sequence = ord,
             r_alto = alto_text,
             r_page = page_text \<rparr>)))))))"

text \<open>
  The loop over the page divisions: the records of the pages before the first failing
  one are yielded, then the exception ends the generator.
\<close>

fun pages :: "fsnode \<Rightarrow> path \<Rightarrow> (pyval \<rightharpoonup> pystr) \<Rightarrow> int \<Rightarrow> pyval list \<Rightarrow> page_record gen" where
  "pages fs metadata_root paths docid [] = ([], None)"
| "pages fs metadata_root paths docid (struct # structs) =
     (case page_entry fs metadata_root paths docid struct of
        Inl e \<Rightarrow> ([], Some e)
      | Inr r \<Rightarrow>
          (case pages fs metadata_root paths docid structs of (rs, e) \<Rightarrow> (r # rs, e)))"

text \<open>
  \<^verbatim>\<open>doc_collections = [int(c["colId"])
      for c in metadata["trpDocMetadata"]["collectionList"]["colList"]]\<close>
\<close>

definition doc_collections :: "pyval \<Rightarrow> error + int list" where
  "doc_collections metadata =
     bindE (getitem metadata (ustr ''trpDocMetadata'')) (\<lambda>m.
     bindE (getitem m (ustr ''collectionList'')) (\<lambda>cl.
     bindE (getitem cl (ustr ''colList'')) (\<lambda>l.
     bindE (py_iter l) (each (\<lambda>c. bindE (getitem c (ustr ''colId'')) py_int)))))"

text \<open>
  One pass of the loop over the located bundles. It ends in one of three ways: the loop
  goes on, the generator returns (the collection filter missed), or an exception
  leaves it. \<open>bundle_pages\<close> is the part behind the filter.
\<close>

datatype status = Continue | Return | Raise error

definition bundle_pages ::
  "(pystr \<Rightarrow> xml option) \<Rightarrow> fsnode \<Rightarrow> path \<Rightarrow> pyval \<Rightarrow> error + page_record gen" where
  "bundle_pages expat fs metadata_root metadata =
     bindE (getitem metadata (ustr ''trpDocMetadata'')) (\<lambda>m.
     bindE (getitem m (ustr ''docId'')) (\<lambda>d.
     bindE (py_int d) (\<lambda>docid.
     bindE (getitem metadata (ustr ''trpDocMetadata'')) (\<lambda>m'.
     bindE (getitem m' (ustr ''title'')) (\<lambda>title.
     bindE (read_text fs (joinpath metadata_root (ustr ''mets.xml''))) (\<lambda>content.
     bindE (parse_xml expat [] content) (\<lambda>mets.
     bindE (build_paths mets) (\<lambda>paths.
     bindE (getitem mets (ustr ''ns3:mets'')) (\<lambda>m2.
     bindE (getitem m2 (ustr ''ns3:structMap'')) (\<lambda>sm.
     bindE (getitem sm (ustr ''ns3:div'')) (\<lambda>outer.
     bindE (getitem outer (ustr ''ns3:div'')) (\<lambda>divs.
     bindE (py_iter divs) (\<lambda>structs.
       Inr (pages fs metadata_root paths docid structs))))))))))))))"

definition one_bundle ::
  "(pystr \<Rightarrow> xml option) \<Rightarrow> fsnode \<Rightarrow> int list \<Rightarrow> path \<Rightarrow> page_record list \<times> status" where
  "one_bundle expat fs collections metadata_path =
     (let metadata_root = parent metadata_path in
      case bindE (read_text fs metadata_path) (parse_xml expat [ustr ''colList'']) of
        Inl e \<Rightarrow> ([], Raise e)
      | Inr metadata \<Rightarrow>
          (case doc_collections metadata of
             Inl e \<Rightarrow> ([], Raise e)
           | Inr cs \<Rightarrow>
               if collections \<noteq> [] \<and> set collections \<inter> set cs = {} then ([], Return)
               else (case bundle_pages expat fs metadata_root metadata of
                       Inl e \<Rightarrow> ([], Raise e)
                     | Inr (rs, None) \<Rightarrow> (rs, Continue)
                     | Inr (rs, Some e) \<Rightarrow> (rs, Raise e))))"

text \<open>
  \<^verbatim>\<open>for metadata_path in find_file(root.resolve(), "metadata.xml"): ...\<close>

  \<open>final\<close> is the exception that ends the locator, raised once the bundles it yielded
  before have been handled.
\<close>

fun run_bundles ::
  "(pystr \<Rightarrow> xml option) \<Rightarrow> fsnode \<Rightarrow> int list \<Rightarrow> path list \<Rightarrow> error option
     \<Rightarrow> page_record gen" where
  "run_bundles expat fs collections [] final = ([], final)"
| "run_bundles expat fs collections (p # ps) final =
     (case one_bundle expat fs collections p of
        (rs, Continue) \<Rightarrow>
          (case run_bundles expat fs collections ps final of (rs', e) \<Rightarrow> (rs @ rs', e))
      | (rs, Return) \<Rightarrow> (rs, None)
      | (rs, Raise e) \<Rightarrow> (rs, Some e))"

definition dataset_generator_transkribus ::
  "(pystr \<Rightarrow> xml option) \<Rightarrow> fsnode \<Rightarrow> path \<Rightarrow> int list \<Rightarrow> page_record gen" where
  "dataset_generator_transkribus expat fs root collections =
     (case find_file root (node_at fs root) (ustr ''metadata.xml'') of
        (found, final) \<Rightarrow> run_bundles expat fs collections found final)"

section \<open>A sample export\<close>

text \<open>
  One document with the id 42, two pages with the orders 1 and 2, and a location that
  needs percent decoding. The first page points at an image and a raw-OCR layer, the
  second at an image and a curated layer. \<open>M7\<close> and \<open>M9\<close> stand for the texts of two
  metadata documents, in collection 7 and in collection 9, \<open>S\<close> for the text of the
  structure document.
\<close>

definition el :: "string \<Rightarrow> (string \<times> string) list \<Rightarrow> xml list \<Rightarrow> xml" where
  "el n attrs kids = Elem (ustr n) (map (\<lambda>(k, v). (ustr k, ustr v)) attrs) kids"

definition sample_metadata :: "string \<Rightarrow> xml" where
  "sample_metadata c =
     el ''trpDocMetadata'' []
       [Text [10, 32],
        el ''docId'' [] [Text (ustr ''42'')],
        el ''title'' [] [Text (ustr ''Letters'')],
        el ''collectionList'' []
          [el ''colList'' [] [el ''colId'' [] [Text (ustr c)], el ''colName'' [] [Text (ustr ''A'')]]]]"

definition sample_file :: "string \<Rightarrow> string \<Rightarrow> xml" where
  "sample_file i h = el ''ns3:file'' [(''ID'', i)] [el ''ns3:FLocat'' [(''ns2:href'', h)] []]"

definition sample_fptr :: "string \<Rightarrow> xml" where
  "sample_fptr i = el ''ns3:fptr'' [] [el ''ns3:area'' [(''FILEID'', i)] []]"

definition sample_div :: "string \<Rightarrow> string list \<Rightarrow> xml" where
  "sample_div n ids =
     el ''ns3:div'' [(''ORDER'', n), (''TYPE'', ''SINGLE_PAGE'')] (map sample_fptr ids)"

definition sample_mets :: xml where
  "sample_mets =
     el ''ns3:mets'' []
       [el ''ns3:fileSec'' []
          [el ''ns3:fileGrp'' [(''ID'', ''MASTER'')]
             [el ''ns3:fileGrp'' [(''ID'', ''IMG'')]
                [sample_file ''IMG_1'' ''1.jpg'', sample_file ''IMG_2'' ''2.jpg''],
              el ''ns3:fileGrp'' [(''ID'', ''TXT'')]
                [sample_file ''ALTO_2'' ''a%20b.xml'', sample_file ''PAGEXML_3'' ''p.xml'']]],
        el ''ns3:structMap'' []
          [el ''ns3:div'' []
             [sample_div ''1'' [''IMG_1'', ''ALTO_2''],
              sample_div ''2'' [''IMG_2'', ''PAGEXML_3'']]]]"

definition sample_expat :: "pystr \<Rightarrow> xml option" where
  "sample_expat t =
     (if t = ustr ''M7'' then Some (sample_metadata ''7'')
      else if t = ustr ''M9'' then Some (sample_metadata ''9'')
      else if t = ustr ''S'' then Some sample_mets
      else None)"

definition sample_bundle :: "string \<Rightarrow> fsnode" where
  "sample_bundle m =
     Dir [(ustr ''metadata.xml'', File (Some (ustr m))),
          (ustr ''mets.xml'', File (Some (ustr ''S''))),
          (ustr ''1.jpg'', File None),
          (ustr ''2.jpg'', File None),
          (ustr ''a b.xml'', File (Some (ustr ''<alto/>''))),
          (ustr ''p.xml'', File (Some (ustr ''<Page> <TranskribusMetadata a=\"b\"/>x</Page>'')))]"

definition sample_fs :: fsnode where
  "sample_fs = Dir [(ustr ''in'', Dir [(ustr ''d1'', sample_bundle ''M7'')])]"

definition sample_fs2 :: fsnode where
  "sample_fs2 = Dir [(ustr ''in'', Dir [(ustr ''d1'', sample_bundle ''M7''), (ustr ''d2'', sample_bundle ''M9'')])]"

section \<open>The collection filter\<close>

lemma bindE_simps [simp]:
  "bindE (Inl e) f = Inl e"
  "bindE (Inr x) f = f x"
  by (simp_all add: bindE_def)

lemmas sample_defs =
  sample_fs_def sample_fs2_def sample_bundle_def sample_expat_def sample_mets_def
  sample_div_def sample_fptr_def sample_file_def sample_metadata_def el_def

lemmas model_defs =
  dataset_generator_transkribus_def one_bundle_def bundle_pages_def doc_collections_def
  page_entry_def read_layer_def truthy_def lookup_path_def build_paths_def dict_of_def
  group_entries_def file_entry_def hashable_def next_fileid_def parent_def str_path_def
  joinpath_def parts_def parse_xml_def push_data_def unquote_str_def is_hexdig_def hexval_def
  int_of_str_def is_digit_def strip_def read_text_def node_at_def

lemma filter_miss_returns:
  assumes "bindE (read_text fs b) (parse_xml expat [ustr ''colList'']) = Inr metadata"
    and "doc_collections metadata = Inr cs"
    and "collections \<noteq> []" and "set collections \<inter> set cs = {}"
  shows "one_bundle expat fs collections b = ([], Return)"
  using assms by (simp add: one_bundle_def Let_def)

lemma run_bundles_return:
  assumes "one_bundle expat fs collections b = ([], Return)"
  shows "run_bundles expat fs collections (pre @ b # post) final
         = run_bundles expat fs collections pre None"
proof (induction pre)
  case Nil
  show ?case using assms by simp
next
  case (Cons p pre)
  then show ?case by (simp split: prod.splits status.splits)
qed

text \<open>
  C1. Let the locator find the bundles \<open>pre\<close>, then \<open>b\<close>, then \<open>post\<close>, and let a
  non-empty filter share no collection id with \<open>b\<close>. Then \<open>b\<close> yields no record and
  makes the generator return: the whole output is what the bundles of \<open>pre\<close> give, and
  nothing of \<open>post\<close> is looked at. In the sample, collection 7 under the filter 9 gives
  no record, with or without a second bundle that is in collection 9.
\<close>

theorem filter_miss_ends_run:
  assumes "find_file root (node_at fs root) (ustr ''metadata.xml'') = (pre @ b # post, final)"
    and "bindE (read_text fs b) (parse_xml expat [ustr ''colList'']) = Inr metadata"
    and "doc_collections metadata = Inr cs"
    and "collections \<noteq> []" and "set collections \<inter> set cs = {}"
  shows "one_bundle expat fs collections b = ([], Return)
       \<and> dataset_generator_transkribus expat fs root collections
         = run_bundles expat fs collections pre None"
proof -
  have r: "one_bundle expat fs collections b = ([], Return)"
    using assms(2-5) by (rule filter_miss_returns)
  show ?thesis
    using r run_bundles_return[OF r] assms(1)
    by (simp add: dataset_generator_transkribus_def)
qed

lemma sample_found:
  "find_file [ustr ''in''] (node_at sample_fs [ustr ''in'']) (ustr ''metadata.xml'')
     = ([[ustr ''in'', ustr ''d1'', ustr ''metadata.xml'']], None)"
  by (simp add: sample_defs node_at_def ustr_def)

lemma sample_found2:
  "find_file [ustr ''in''] (node_at sample_fs2 [ustr ''in'']) (ustr ''metadata.xml'')
     = ([[ustr ''in'', ustr ''d1'', ustr ''metadata.xml''],
         [ustr ''in'', ustr ''d2'', ustr ''metadata.xml'']], None)"
  by (simp add: sample_defs node_at_def ustr_def)


definition sample_md_value :: "string \<Rightarrow> pyval" where
  "sample_md_value c =
     PDict (push_data [ustr ''colList''] [] (ustr ''trpDocMetadata'')
              (to_value [ustr ''colList''] (sample_metadata c)))"

lemma sample_md_read:
  "bindE (read_text sample_fs [ustr ''in'', ustr ''d1'', ustr ''metadata.xml''])
         (parse_xml sample_expat [ustr ''colList''])
   = Inr (sample_md_value ''7'')"
  "bindE (read_text sample_fs2 [ustr ''in'', ustr ''d1'', ustr ''metadata.xml''])
         (parse_xml sample_expat [ustr ''colList''])
   = Inr (sample_md_value ''7'')"
  by (simp_all add: sample_md_value_def read_text_def parse_xml_def sample_fs_def sample_fs2_def
        sample_bundle_def sample_expat_def sample_metadata_def el_def ustr_def)

lemma sample_md_collections: "doc_collections (sample_md_value ''7'') = Inr [7]"
  by (simp add: sample_md_value_def doc_collections_def sample_metadata_def el_def push_data_def
        ustr_def strip_def is_space_def int_of_str_def is_digit_def)

theorem filter_miss_ends_run_witness:
  "doc_collections (sample_md_value ''7'') = Inr [7]
   \<and> dataset_generator_transkribus sample_expat sample_fs [ustr ''in''] [9] = ([], None)
   \<and> dataset_generator_transkribus sample_expat sample_fs2 [ustr ''in''] [9] = ([], None)"
  using
    filter_miss_ends_run[where pre = "[]" and post = "[]" and collections = "[9]",
      OF _ sample_md_read(1) sample_md_collections, simplified, OF sample_found]
    filter_miss_ends_run[where pre = "[]" and collections = "[9]",
      OF _ sample_md_read(2) sample_md_collections, simplified, OF sample_found2]
    sample_md_collections
  by simp

section \<open>Classifying the file pointers\<close>

text \<open>
  \<^verbatim>\<open>f["ns3:area"]["@FILEID"]\<close>, the file id a pointer entry carries.
\<close>

definition fileid_of :: "pyval \<Rightarrow> error + pyval" where
  "fileid_of f = bindE (getitem f (ustr ''ns3:area'')) (\<lambda>a. getitem a (ustr ''@FILEID''))"

lemma scan_fileid_find:
  assumes "list_all2 (\<lambda>f i. fileid_of f = Inr (PStr i)) ptrs ids"
  shows "scan_fileid pre ptrs = Inr (find (\<lambda>i. startswith i pre) ids)"
  using assms
proof (induction ptrs ids rule: list_all2_induct)
  case Nil
  show ?case by simp
next
  case (Cons f ptrs i ids)
  from Cons.hyps(1) obtain a where a: "getitem f (ustr ''ns3:area'') = Inr a"
    "getitem a (ustr ''@FILEID'') = Inr (PStr i)"
    by (cases "getitem f (ustr ''ns3:area'')") (auto simp: fileid_of_def)
  show ?case using a Cons.IH by simp
qed

lemma bindE_Inr_iff: "bindE m f = Inr y \<longleftrightarrow> (\<exists>x. m = Inr x \<and> f x = Inr y)"
  by (cases m) auto



text \<open>
  What the scans find in a pointer list. For a page division whose pointers form a list
  and carry the file ids \<open>ids\<close>, the id found for a prefix is the first of \<open>ids\<close>
  that starts with it, and \<open>None\<close> when there is none; this holds for each of the three
  prefixes. Where no id starts with the prefix of a text layer, a record assembled from
  the division has the empty string for that layer.
\<close>

theorem first_id_per_prefix:
  assumes "getitem struct (ustr ''ns3:fptr'') = Inr (PList ptrs)"
    and "list_all2 (\<lambda>f i. fileid_of f = Inr (PStr i)) ptrs ids"
  shows "next_fileid pre struct = Inr (find (\<lambda>i. startswith i pre) ids)
       \<and> (find (\<lambda>i. startswith i (ustr ''ALTO_'')) ids = None \<longrightarrow>
            page_entry fs metadata_root paths docid struct = Inr r \<longrightarrow> r_alto r = [])
       \<and> (find (\<lambda>i. startswith i (ustr ''PAGEXML_'')) ids = None \<longrightarrow>
            page_entry fs metadata_root paths docid struct = Inr r \<longrightarrow> r_page r = [])"
proof -
  have n: "next_fileid p struct = Inr (find (\<lambda>i. startswith i p) ids)" for p
    using assms by (simp add: next_fileid_def scan_fileid_find)
  show ?thesis
    by (auto simp: n page_entry_def truthy_def bindE_Inr_iff)
qed


section \<open>Lookups in the path mapping\<close>





lemma pages_append_fail:
  assumes "page_entry fs metadata_root paths docid struct = Inl e"
  shows "fst (pages fs metadata_root paths docid (before @ struct # rest))
           = fst (pages fs metadata_root paths docid before)
       \<and> snd (pages fs metadata_root paths docid (before @ struct # rest)) \<noteq> None"
proof (induction before)
  case Nil
  show ?case using assms by simp
next
  case (Cons s before)
  then show ?case by (auto split: sum.splits prod.splits)
qed

lemma missing_image_key_error:
  assumes "next_fileid (ustr ''IMG_'') struct = Inr img_id"
    and "next_fileid (ustr ''ALTO_'') struct = Inr alto_id"
    and "next_fileid (ustr ''PAGEXML_'') struct = Inr page_id"
    and "paths PNone = None"
    and "img_id = None \<or> (\<exists>s. img_id = Some s \<and> paths (PStr s) = None)"
  shows "page_entry fs metadata_root paths docid struct = Inl KeyError
       \<and> pages fs metadata_root paths docid (struct # rest) = ([], Some KeyError)
       \<and> fst (pages fs metadata_root paths docid (before @ struct # rest))
           = fst (pages fs metadata_root paths docid before)
       \<and> snd (pages fs metadata_root paths docid (before @ struct # rest)) \<noteq> None"
proof -
  have "lookup_path paths img_id = Inl KeyError"
    using assms(4,5) by (auto simp: lookup_path_def)
  then have e: "page_entry fs metadata_root paths docid struct = Inl KeyError"
    using assms(1-3) by (simp add: page_entry_def)
  show ?thesis using e pages_append_fail[OF e] by simp
qed


section \<open>Attribute values are strings\<close>

text \<open>
  In what the XML reader delivers, every value under a key that starts with \<^verbatim>\<open>@\<close>
  is a string, at every depth (\<open>attr_strs\<close>): such a key can only come from an
  attribute, as no element name starts with \<^verbatim>\<open>@\<close> (\<open>well_named\<close>).
\<close>

fun is_str :: "pyval \<Rightarrow> bool" where
  "is_str (PStr s) = True"
| "is_str v = False"

fun attr_strs :: "pyval \<Rightarrow> bool" where
  "attr_strs (PDict kvs) =
     (\<forall>kv\<in>set kvs. (startswith (fst kv) [64] \<longrightarrow> is_str (snd kv)) \<and> attr_strs (snd kv))"
| "attr_strs (PList xs) = (\<forall>x\<in>set xs. attr_strs x)"
| "attr_strs v = True"

fun well_named :: "xml \<Rightarrow> bool" where
  "well_named (Elem n attrs kids) = (\<not> startswith n [64] \<and> (\<forall>k\<in>set kids. well_named k))"
| "well_named (Text t) = True"

definition entry_ok :: "pystr \<times> pyval \<Rightarrow> bool" where
  "entry_ok kv = ((startswith (fst kv) [64] \<longrightarrow> is_str (snd kv)) \<and> attr_strs (snd kv))"

lemma attr_strs_dict: "attr_strs (PDict kvs) \<longleftrightarrow> (\<forall>kv\<in>set kvs. entry_ok kv)"
  by (simp add: entry_ok_def)

lemma set_update_sub: "set (AList.update k v al) \<subseteq> insert (k, v) (set al)"
  by (induction al) auto

lemma update_ok:
  assumes "\<forall>kv\<in>set d. entry_ok kv" and "entry_ok (k, v)"
  shows "\<forall>kv\<in>set (AList.update k v d). entry_ok kv"
proof
  fix kv assume "kv \<in> set (AList.update k v d)"
  then have "kv = (k, v) \<or> kv \<in> set d" using set_update_sub[of k v d] by blast
  then show "entry_ok kv" using assms by blast
qed

lemma push_data_ok:
  assumes d: "\<forall>kv\<in>set d. entry_ok kv" and n: "\<not> startswith n [64]" and v: "attr_strs v"
  shows "\<forall>kv\<in>set (push_data fl d n v). entry_ok kv"
proof (cases "map_of d n")
  case None
  have pd: "push_data fl d n v = d @ [(n, if n \<in> set fl then PList [v] else v)]"
    using None by (simp add: push_data_def)
  have "entry_ok (n, if n \<in> set fl then PList [v] else v)"
    using n v by (simp add: entry_ok_def)
  then show ?thesis unfolding pd using d by simp
next
  case (Some x)
  then have "(n, x) \<in> set d" by (rule map_of_SomeD)
  then have "entry_ok (n, x)" using d by blast
  then have x: "attr_strs x" by (simp add: entry_ok_def)
  define y where "y = (case x of PList vs \<Rightarrow> PList (vs @ [v]) | _ \<Rightarrow> PList [x, v])"
  have pd: "push_data fl d n v = AList.update n y d"
    using Some by (cases x) (simp_all add: push_data_def y_def)
  have "attr_strs y" using x v by (cases x) (simp_all add: y_def)
  then have "entry_ok (n, y)" using n by (simp add: entry_ok_def)
  then show ?thesis unfolding pd by (rule update_ok[OF d])
qed

lemma attrs_ok:
  "\<forall>kv\<in>set d. entry_ok kv \<Longrightarrow>
   \<forall>kv\<in>set (foldl (\<lambda>d (k, v). AList.update (64 # k) (PStr v) d) d attrs). entry_ok kv"
proof (induction attrs arbitrary: d)
  case Nil
  then show ?case by simp
next
  case (Cons a attrs)
  obtain k v where a: "a = (k, v)" by (cases a)
  have "\<forall>kv\<in>set (AList.update (64 # k) (PStr v) d). entry_ok kv"
    by (rule update_ok[OF Cons.prems]) (simp add: entry_ok_def)
  then show ?case using Cons.IH a by simp
qed

lemma kids_ok:
  "\<forall>kv\<in>set d. entry_ok kv \<Longrightarrow> \<forall>nv\<in>set nvs. \<not> startswith (fst nv) [64] \<and> attr_strs (snd nv) \<Longrightarrow>
   \<forall>kv\<in>set (foldl (\<lambda>d (n, v). push_data fl d n v) d nvs). entry_ok kv"
proof (induction nvs arbitrary: d)
  case Nil
  then show ?case by simp
next
  case (Cons a nvs)
  obtain n v where a: "a = (n, v)" by (cases a)
  have "\<forall>kv\<in>set (push_data fl d n v). entry_ok kv"
    using Cons.prems a by (intro push_data_ok) auto
  then show ?case using Cons.IH[of "push_data fl d n v"] Cons.prems(2) a by simp
qed

lemma elem_name_ok: "well_named k \<Longrightarrow> is_elem k \<Longrightarrow> \<not> startswith (elem_name k) [64]"
  by (cases k) auto

lemma to_value_attr_strs: "well_named e \<Longrightarrow> attr_strs (to_value fl e)"
proof (induction fl e rule: to_value.induct)
  case (1 fl name attrs kids)
  let ?base = "foldl (\<lambda>d (k, v). AList.update (64 # k) (PStr v) d) [] attrs"
  let ?nvs = "map (\<lambda>k. (elem_name k, to_value fl k)) (filter is_elem kids)"
  let ?item = "foldl (\<lambda>d (n, v). push_data fl d n v) ?base ?nvs"
  have i0: "\<forall>kv\<in>set ?base. entry_ok kv" by (rule attrs_ok) simp
  have nv: "\<forall>nv\<in>set ?nvs. \<not> startswith (fst nv) [64] \<and> attr_strs (snd nv)"
  proof
    fix nv assume "nv \<in> set ?nvs"
    then obtain k where k: "k \<in> set kids" "is_elem k" "nv = (elem_name k, to_value fl k)" by auto
    have wk: "well_named k" using "1.prems" k(1) by simp
    have "attr_strs (to_value fl k)" using "1.IH" k wk by simp
    then show "\<not> startswith (fst nv) [64] \<and> attr_strs (snd nv)"
      using elem_name_ok[OF wk k(2)] k(3) by simp
  qed
  have it: "\<forall>kv\<in>set ?item. entry_ok kv" by (rule kids_ok[OF i0 nv])
  have tx: "\<forall>kv\<in>set (push_data fl ?item (ustr ''#text'') (PStr t)). entry_ok kv" for t
    using it by (rule push_data_ok) (simp_all add: ustr_def startswith_def)
  show ?case using it tx by (simp add: Let_def attr_strs_dict del: attr_strs.simps(1))
next
  case (2 fl t)
  show ?case by simp
qed

lemma parse_xml_attr_strs:
  assumes "parse_xml expat fl t = Inr v" and "\<forall>e. expat t = Some e \<longrightarrow> well_named e"
  shows "attr_strs v"
proof -
  from assms(1) obtain name attrs kids where e: "expat t = Some (Elem name attrs kids)"
    and v: "v = PDict (push_data fl [] name (to_value fl (Elem name attrs kids)))"
    by (auto simp: parse_xml_def split: option.splits xml.splits)
  have w: "well_named (Elem name attrs kids)" using assms(2) e by blast
  have "\<forall>kv\<in>set (push_data fl [] name (to_value fl (Elem name attrs kids))). entry_ok kv"
    using w by (intro push_data_ok to_value_attr_strs) auto
  then show ?thesis unfolding v by (simp add: attr_strs_dict del: attr_strs.simps(1))
qed

lemma getitem_attr_strs: "attr_strs d \<Longrightarrow> getitem d k = Inr v \<Longrightarrow> attr_strs v"
  by (cases d) (auto split: option.splits dest!: map_of_SomeD)

lemma getitem_attr_is_str: "attr_strs d \<Longrightarrow> getitem d (64 # k) = Inr v \<Longrightarrow> is_str v"
  by (cases d) (auto split: option.splits dest!: map_of_SomeD simp: startswith_def)

lemma py_iter_attr_strs: "attr_strs d \<Longrightarrow> py_iter d = Inr xs \<Longrightarrow> x \<in> set xs \<Longrightarrow> attr_strs x"
  by (cases d) auto

lemma each_Inr_elem:
  "each f xs = Inr ys \<Longrightarrow> y \<in> set ys \<Longrightarrow> \<exists>x\<in>set xs. f x = Inr y"
proof (induction xs arbitrary: ys)
  case Nil
  then show ?case by simp
next
  case (Cons x xs)
  from Cons.prems(1) obtain z zs where z: "f x = Inr z" "each f xs = Inr zs" "ys = z # zs"
    by (auto simp: bindE_Inr_iff)
  show ?case
  proof (cases "y = z")
    case True
    then show ?thesis using z by auto
  next
    case False
    then have "y \<in> set zs" using Cons.prems(2) z by simp
    then show ?thesis using Cons.IH[OF z(2)] by auto
  qed
qed

lemma dict_of_foldl_Some:
  "foldl (\<lambda>m (k, v). m(k \<mapsto> v)) m0 kvs k = Some v \<Longrightarrow> m0 k = Some v \<or> (k, v) \<in> set kvs"
proof (induction kvs arbitrary: m0)
  case Nil
  then show ?case by simp
next
  case (Cons a kvs)
  obtain k' v' where a: "a = (k', v')" by (cases a)
  from Cons.prems have "foldl (\<lambda>m (k, v). m(k \<mapsto> v)) (m0(k' \<mapsto> v')) kvs k = Some v"
    by (simp only: a foldl_Cons prod.case)
  from Cons.IH[OF this] show ?case by (auto simp: a split: if_splits)
qed

lemma dict_of_Some: "dict_of kvs k = Some v \<Longrightarrow> (k, v) \<in> set kvs"
  using dict_of_foldl_Some[of Map.empty kvs k v] by (simp add: dict_of_def)

lemma file_entry_key_str:
  assumes "attr_strs file" and "file_entry file = Inr (k, v)"
  shows "is_str k"
proof -
  from assms(2) have "getitem file (ustr ''@ID'') = Inr k"
    by (auto simp: file_entry_def bindE_Inr_iff split: if_splits)
  then have "getitem file (64 # ustr ''ID'') = Inr k" by (simp add: ustr_def)
  then show ?thesis using assms(1) by (rule getitem_attr_is_str[rotated])
qed

lemma build_paths_keys:
  assumes a: "attr_strs mets" and b: "build_paths mets = Inr paths" and p: "paths k = Some v"
  shows "is_str k"
proof -
  from b obtain m sec outer groups gs es where
    g: "getitem mets (ustr ''ns3:mets'') = Inr m"
       "getitem m (ustr ''ns3:fileSec'') = Inr sec"
       "getitem sec (ustr ''ns3:fileGrp'') = Inr outer"
       "getitem outer (ustr ''ns3:fileGrp'') = Inr groups"
       "py_iter groups = Inr gs"
       "each group_entries gs = Inr es"
       "paths = dict_of (concat es)"
    by (auto simp: build_paths_def bindE_Inr_iff)
  have ag: "attr_strs groups"
    using a g(1-4) by (blast intro: getitem_attr_strs)
  from p g(7) have "(k, v) \<in> set (concat es)" by (auto dest: dict_of_Some)
  then obtain e where e: "e \<in> set es" "(k, v) \<in> set e" by auto
  from each_Inr_elem[OF g(6) e(1)] obtain grp where grp: "grp \<in> set gs" "group_entries grp = Inr e"
    by blast
  have agrp: "attr_strs grp" using ag g(5) grp(1) by (rule py_iter_attr_strs)
  from grp(2) obtain fs files where f: "getitem grp (ustr ''ns3:file'') = Inr fs"
    "py_iter fs = Inr files" "each file_entry files = Inr e"
    by (auto simp: group_entries_def bindE_Inr_iff)
  from each_Inr_elem[OF f(3) e(2)] obtain f0 where fe: "f0 \<in> set files" "file_entry f0 = Inr (k, v)"
    by blast
  have "attr_strs fs" using agrp f(1) by (rule getitem_attr_strs)
  then have "attr_strs f0" using f(2) fe(1) by (rule py_iter_attr_strs)
  then show ?thesis using fe(2) by (rule file_entry_key_str)
qed

lemma pages_elem:
  "r \<in> set (fst (pages fs metadata_root paths docid structs)) \<Longrightarrow>
   \<exists>s\<in>set structs. page_entry fs metadata_root paths docid s = Inr r"
proof (induction structs)
  case Nil
  then show ?case by simp
next
  case (Cons s structs)
  then show ?case by (auto split: sum.splits prod.splits)
qed

lemma page_entry_sequence:
  "page_entry fs metadata_root paths docid struct = Inr r \<Longrightarrow>
   getitem struct (ustr ''@ORDER'') = Inr (r_sequence r) \<and> r_doc_id r = docid"
  by (auto simp: page_entry_def bindE_Inr_iff)

lemma bundle_pages_elem:
  assumes w: "\<forall>t e. expat t = Some e \<longrightarrow> well_named e"
    and b: "bundle_pages expat fs metadata_root metadata = Inr g" and r: "r \<in> set (fst g)"
  shows "\<exists>struct paths docid. attr_strs struct \<and> page_entry fs metadata_root paths docid struct = Inr r"
proof -
  from b obtain content mets paths docid m2 sm outer divs structs where
    g: "parse_xml expat [] content = Inr mets"
       "getitem mets (ustr ''ns3:mets'') = Inr m2"
       "getitem m2 (ustr ''ns3:structMap'') = Inr sm"
       "getitem sm (ustr ''ns3:div'') = Inr outer"
       "getitem outer (ustr ''ns3:div'') = Inr divs"
       "py_iter divs = Inr structs"
       "g = pages fs metadata_root paths docid structs"
    by (auto simp: bundle_pages_def bindE_Inr_iff)
  have "attr_strs mets" using g(1) w by (blast intro: parse_xml_attr_strs)
  then have ad: "attr_strs divs" using g(2-5) by (blast intro: getitem_attr_strs)
  from r g(7) obtain s where s: "s \<in> set structs" "page_entry fs metadata_root paths docid s = Inr r"
    by (auto dest: pages_elem)
  have "attr_strs s" using ad g(6) s(1) by (rule py_iter_attr_strs)
  then show ?thesis using s(2) by blast
qed

lemma one_bundle_elem:
  assumes w: "\<forall>t e. expat t = Some e \<longrightarrow> well_named e"
    and r: "r \<in> set (fst (one_bundle expat fs collections p))"
  shows "\<exists>struct root paths docid. attr_strs struct \<and> page_entry fs root paths docid struct = Inr r"
proof -
  from r obtain metadata g where "bundle_pages expat fs (parent p) metadata = Inr g" "r \<in> set (fst g)"
    by (auto simp: one_bundle_def Let_def split: sum.splits if_splits prod.splits option.splits)
  then show ?thesis using bundle_pages_elem[OF w] by blast
qed

lemma run_bundles_elem:
  "r \<in> set (fst (run_bundles expat fs collections ps final)) \<Longrightarrow>
   \<exists>p. r \<in> set (fst (one_bundle expat fs collections p))"
proof (induction ps)
  case Nil
  then show ?case by simp
next
  case (Cons p ps)
  obtain rs st where ob: "one_bundle expat fs collections p = (rs, st)"
    by (cases "one_bundle expat fs collections p")
  have "r \<in> set rs \<or> r \<in> set (fst (run_bundles expat fs collections ps final))"
    using Cons.prems ob by (cases st) (auto split: prod.splits)
  then show ?case
  proof
    assume "r \<in> set rs"
    then have "r \<in> set (fst (one_bundle expat fs collections p))" using ob by simp
    then show ?thesis by blast
  next
    assume "r \<in> set (fst (run_bundles expat fs collections ps final))"
    then show ?thesis by (rule Cons.IH)
  qed
qed

text \<open>
  The \<^verbatim>\<open>sequence\<close> of a record is the value under \<^verbatim>\<open>@ORDER\<close> of its division,
  passed on as it is; in every record the generator yields it is a string.
\<close>

theorem sequence_is_order_string:
  "(page_entry fs metadata_root paths docid struct = Inr r \<longrightarrow>
      getitem struct (ustr ''@ORDER'') = Inr (r_sequence r))
   \<and> ((\<forall>t e. expat t = Some e \<longrightarrow> well_named e) \<longrightarrow>
      r' \<in> set (fst (dataset_generator_transkribus expat fs' root collections)) \<longrightarrow>
      (\<exists>s. r_sequence r' = PStr s))"
proof (intro conjI impI)
  assume "page_entry fs metadata_root paths docid struct = Inr r"
  then show "getitem struct (ustr ''@ORDER'') = Inr (r_sequence r)"
    by (simp add: page_entry_sequence)
next
  assume w: "\<forall>t e. expat t = Some e \<longrightarrow> well_named e"
    and r: "r' \<in> set (fst (dataset_generator_transkribus expat fs' root collections))"
  from r obtain p where "r' \<in> set (fst (one_bundle expat fs' collections p))"
    by (auto simp: dataset_generator_transkribus_def split: prod.splits dest: run_bundles_elem)
  from one_bundle_elem[OF w this] obtain struct mr paths docid where
    s: "attr_strs struct" "page_entry fs' mr paths docid struct = Inr r'" by blast
  have "getitem struct (64 # ustr ''ORDER'') = Inr (r_sequence r')"
    using page_entry_sequence[OF s(2)] by (simp add: ustr_def)
  then have "is_str (r_sequence r')" using s(1) by (rule getitem_attr_is_str[rotated])
  then show "\<exists>s. r_sequence r' = PStr s" by (cases "r_sequence r'") auto
qed

section \<open>The sample, evaluated\<close>

definition sample_record1 :: page_record where
  "sample_record1 = \<lparr> r_image = ustr ''/in/d1/1.jpg'', r_doc_id = 42, r_sequence = PStr (ustr ''1''),
                       r_alto = ustr ''<alto/>'', r_page = [] \<rparr>"

definition sample_record2 :: page_record where
  "sample_record2 = \<lparr> r_image = ustr ''/in/d1/2.jpg'', r_doc_id = 42, r_sequence = PStr (ustr ''2''),
                       r_alto = [], r_page = ustr ''<Page>x</Page>'' \<rparr>"

lemmas eval_defs = model_defs sample_defs strip_eval tag_open_def is_cont_def second_ok3_def second_ok4_def

lemma sample_run:
  "dataset_generator_transkribus sample_expat sample_fs [ustr ''in''] [7]
     = ([sample_record1, sample_record2], None)"
  by (simp add: eval_defs sample_record1_def sample_record2_def)

section \<open>The path mapping\<close>

text \<open>
  \<open>file_groups\<close> is the expression the outer loop of the comprehension runs over,
  \<open>id_and_href\<close> the two values it reads from a file entry, and \<open>decoded\<close> the pair it
  stores for an entry with the id \<open>i\<close> and the location \<open>h\<close>.
\<close>

definition file_groups :: "pyval \<Rightarrow> error + pyval" where
  "file_groups mets =
     bindE (getitem mets (ustr ''ns3:mets'')) (\<lambda>m.
     bindE (getitem m (ustr ''ns3:fileSec'')) (\<lambda>sec.
     bindE (getitem sec (ustr ''ns3:fileGrp'')) (\<lambda>outer.
       getitem outer (ustr ''ns3:fileGrp''))))"

definition id_and_href :: "pyval \<Rightarrow> error + (pyval \<times> pyval)" where
  "id_and_href file =
     bindE (getitem file (ustr ''@ID'')) (\<lambda>k.
     bindE (getitem file (ustr ''ns3:FLocat'')) (\<lambda>loc.
     bindE (getitem loc (ustr ''@ns2:href'')) (\<lambda>href. Inr (k, href))))"

definition decoded :: "pystr \<times> pystr \<Rightarrow> pyval \<times> pystr" where
  "decoded e = (PStr (fst e), unquote_str (snd e))"

lemma each_list_all2: "list_all2 (\<lambda>x y. f x = Inr y) xs ys \<Longrightarrow> each f xs = Inr ys"
  by (induction xs ys rule: list_all2_induct) simp_all

lemma list_all2_map_right:
  assumes "list_all2 P xs ys" and "\<And>x y. P x y \<Longrightarrow> Q x (g y)"
  shows "list_all2 Q xs (map g ys)"
  using assms by (induction rule: list_all2_induct) auto

lemma file_entry_decoded:
  assumes "id_and_href file = Inr (PStr (fst e), PStr (snd e))"
  shows "file_entry file = Inr (decoded e)"
proof (cases "getitem file (ustr ''@ID'')")
  case (Inl x)
  then show ?thesis using assms by (simp add: id_and_href_def)
next
  case k: (Inr k)
  show ?thesis
  proof (cases "getitem file (ustr ''ns3:FLocat'')")
    case (Inl x)
    then show ?thesis using assms k by (simp add: id_and_href_def)
  next
    case l: (Inr loc)
    show ?thesis
    proof (cases "getitem loc (ustr ''@ns2:href'')")
      case (Inl x)
      then show ?thesis using assms k l by (simp add: id_and_href_def)
    next
      case (Inr href)
      then have "k = PStr (fst e)" "href = PStr (snd e)"
        using assms k l by (simp_all add: id_and_href_def)
      then show ?thesis using k l Inr by (simp add: file_entry_def hashable_def decoded_def)
    qed
  qed
qed

lemma group_entries_decoded:
  assumes "getitem grp (ustr ''ns3:file'') = Inr (PList fs)"
    and "list_all2 (\<lambda>f e. id_and_href f = Inr (PStr (fst e), PStr (snd e))) fs es"
  shows "group_entries grp = Inr (map decoded es)"
proof -
  have "list_all2 (\<lambda>f y. file_entry f = Inr y) fs (map decoded es)"
    using assms(2) by (rule list_all2_map_right) (rule file_entry_decoded)
  then have "each file_entry fs = Inr (map decoded es)" by (rule each_list_all2)
  then show ?thesis using assms(1) by (simp add: group_entries_def)
qed

lemma dict_of_snoc: "dict_of (kvs @ [(k, v)]) = (dict_of kvs)(k \<mapsto> v)"
  by (simp add: dict_of_def)

lemma dict_of_unique:
  assumes "(k, v) \<in> set kvs" and "\<forall>v'. (k, v') \<in> set kvs \<longrightarrow> v' = v"
  shows "dict_of kvs k = Some v"
  using assms
proof (induction kvs rule: rev_induct)
  case Nil
  then show ?case by simp
next
  case (snoc a kvs)
  obtain k' v' where a: "a = (k', v')" by (cases a)
  have u: "\<forall>w. (k, w) \<in> set kvs \<longrightarrow> w = v" using snoc.prems(2) by auto
  show ?case
  proof (cases "k' = k")
    case True
    have "(k, v') \<in> set (kvs @ [a])" unfolding a True by simp
    then have "v' = v" using snoc.prems(2) by blast
    then show ?thesis unfolding a True by (simp add: dict_of_snoc)
  next
    case False
    have "(k, v) \<in> set kvs" using snoc.prems(1) False unfolding a by auto
    then have "dict_of kvs k = Some v" using u by (rule snoc.IH)
    then show ?thesis unfolding a using False by (simp add: dict_of_snoc)
  qed
qed

text \<open>
  The mapping of a file section whose groups and file entries arrive as lists. Let
  \<open>entries\<close> be the ids and location references of the entries, group by group. Then
  the path mapping is built from the ids and the percent-decoded references, in document
  order; for an entry whose id belongs to no entry with another reference, the mapping
  stores the percent-decoded form of its reference under its id.
\<close>

theorem path_mapping_percent_decoded:
  assumes "file_groups mets = Inr (PList groups)"
    and "list_all2 (\<lambda>g es. \<exists>fs. getitem g (ustr ''ns3:file'') = Inr (PList fs)
            \<and> list_all2 (\<lambda>f e. id_and_href f = Inr (PStr (fst e), PStr (snd e))) fs es)
          groups entries"
  shows "build_paths mets = Inr (dict_of (map decoded (concat entries)))
       \<and> (\<forall>e\<in>set (concat entries).
            (\<forall>h'. (fst e, h') \<in> set (concat entries) \<longrightarrow> h' = snd e) \<longrightarrow>
            dict_of (map decoded (concat entries)) (PStr (fst e)) = Some (unquote_str (snd e)))"
proof (intro conjI ballI impI)
  have "list_all2 (\<lambda>g y. group_entries g = Inr y) groups (map (map decoded) entries)"
    using assms(2)
  proof (rule list_all2_map_right)
    fix g es
    assume "\<exists>fs. getitem g (ustr ''ns3:file'') = Inr (PList fs)
            \<and> list_all2 (\<lambda>f e. id_and_href f = Inr (PStr (fst e), PStr (snd e))) fs es"
    then obtain fs where "getitem g (ustr ''ns3:file'') = Inr (PList fs)"
      "list_all2 (\<lambda>f e. id_and_href f = Inr (PStr (fst e), PStr (snd e))) fs es" by (elim exE conjE)
    then show "group_entries g = Inr (map decoded es)" by (rule group_entries_decoded)
  qed
  then have "each group_entries groups = Inr (map (map decoded) entries)" by (rule each_list_all2)
  moreover have "concat (map (map decoded) entries) = map decoded (concat entries)"
    by (simp add: map_concat)
  ultimately have es: "bindE (each group_entries groups) (\<lambda>es. Inr (dict_of (concat es)))
      = Inr (dict_of (map decoded (concat entries)))" by simp
  from assms(1) obtain m sec outer where
    "getitem mets (ustr ''ns3:mets'') = Inr m"
    "getitem m (ustr ''ns3:fileSec'') = Inr sec"
    "getitem sec (ustr ''ns3:fileGrp'') = Inr outer"
    "getitem outer (ustr ''ns3:fileGrp'') = Inr (PList groups)"
    unfolding file_groups_def bindE_Inr_iff by blast
  then show "build_paths mets = Inr (dict_of (map decoded (concat entries)))"
    using es by (simp add: build_paths_def)
next
  fix e assume e: "e \<in> set (concat entries)"
    and u: "\<forall>h'. (fst e, h') \<in> set (concat entries) \<longrightarrow> h' = snd e"
  have "decoded e \<in> decoded ` set (concat entries)" using e by (rule imageI)
  then have "decoded e \<in> set (map decoded (concat entries))" by (simp only: set_map)
  then have m: "(PStr (fst e), unquote_str (snd e)) \<in> set (map decoded (concat entries))"
    by (simp only: decoded_def)
  have un: "\<forall>v'. (PStr (fst e), v') \<in> set (map decoded (concat entries)) \<longrightarrow> v' = unquote_str (snd e)"
  proof (intro allI impI)
    fix v' assume "(PStr (fst e), v') \<in> set (map decoded (concat entries))"
    then have "(PStr (fst e), v') \<in> decoded ` set (concat entries)" by (simp only: set_map)
    then obtain e' where e': "e' \<in> set (concat entries)" "decoded e' = (PStr (fst e), v')"
      by (elim imageE) simp
    then have f: "fst e' = fst e" "v' = unquote_str (snd e')" by (simp_all add: decoded_def)
    have "(fst e', snd e') \<in> set (concat entries)" using e'(1) by simp
    then have "(fst e, snd e') \<in> set (concat entries)" by (simp only: f(1))
    then have "snd e' = snd e" using u by blast
    then show "v' = unquote_str (snd e)" using f(2) by simp
  qed
  show "dict_of (map decoded (concat entries)) (PStr (fst e)) = Some (unquote_str (snd e))"
    using m un by (rule dict_of_unique)
qed

section \<open>Values of the sample\<close>

text \<open>
  The division of a page of the sample as the program sees it, the ids and locations of
  the sample's file section, the mapping they give, and the parsed structure document.
\<close>

definition sample_struct :: "string \<Rightarrow> string list \<Rightarrow> pyval" where
  "sample_struct n ids = to_value [] (sample_div n ids)"

definition sample_entries :: "(pystr \<times> pystr) list list" where
  "sample_entries =
     [[(ustr ''IMG_1'', ustr ''1.jpg''), (ustr ''IMG_2'', ustr ''2.jpg'')],
      [(ustr ''ALTO_2'', ustr ''a%20b.xml''), (ustr ''PAGEXML_3'', ustr ''p.xml'')]]"

definition sample_paths :: "pyval \<rightharpoonup> pystr" where
  "sample_paths = dict_of (map decoded (concat sample_entries))"

definition sample_mets_value :: pyval where
  "sample_mets_value = PDict (push_data [] [] (ustr ''ns3:mets'') (to_value [] sample_mets))"

lemmas w_defs = eval_defs sample_struct_def sample_paths_def sample_entries_def decoded_def
  sample_record1_def sample_record2_def sample_mets_value_def fileid_of_def file_groups_def
  id_and_href_def

lemma sample_page1:
  "page_entry sample_fs [ustr ''in'', ustr ''d1''] sample_paths 42
     (sample_struct ''1'' [''IMG_1'', ''ALTO_2'']) = Inr sample_record1"
  by (simp add: w_defs)

lemma sample_paths_built: "build_paths sample_mets_value = Inr sample_paths"
  by (simp add: w_defs)

lemma sample_well_named: "\<forall>t e. sample_expat t = Some e \<longrightarrow> well_named e"
  by (simp add: sample_defs startswith_def ustr_def)

section \<open>A single collection entry\<close>

lemma map_of_update: "map_of (AList.update k v d) = (map_of d)(k \<mapsto> v)"
  by (induction d) (auto simp: fun_eq_iff)

lemma map_of_push_other:
  assumes "n \<noteq> key"
  shows "map_of (push_data fl d n v) key = map_of d key"
proof (cases "map_of d n")
  case None
  then show ?thesis using assms by (simp add: push_data_def map_add_def split: option.splits)
next
  case (Some x)
  then show ?thesis using assms by (cases x) (simp_all add: push_data_def map_of_update)
qed

lemma map_of_push_new:
  assumes "map_of d key = None"
  shows "map_of (push_data fl d key v) key = Some (if key \<in> set fl then PList [v] else v)"
  using assms by (simp add: push_data_def map_add_def)

lemma map_of_foldl_other:
  "\<forall>nv\<in>set nvs. fst nv \<noteq> key \<Longrightarrow>
   map_of (foldl (\<lambda>d (n, v). push_data fl d n v) d nvs) key = map_of d key"
proof (induction nvs arbitrary: d)
  case Nil
  show ?case by simp
next
  case (Cons a nvs)
  obtain n v where a: "a = (n, v)" by (cases a)
  have "n \<noteq> key" using Cons.prems a by simp
  then have "map_of (push_data fl d n v) key = map_of d key" by (rule map_of_push_other)
  moreover have "\<forall>nv\<in>set nvs. fst nv \<noteq> key" using Cons.prems by simp
  ultimately show ?case using Cons.IH[of "push_data fl d n v"] a by simp
qed

lemma map_of_foldl_single:
  assumes "map_of d key = None" and "filter (\<lambda>nv. fst nv = key) nvs = [(key, v)]"
  shows "map_of (foldl (\<lambda>d (n, v). push_data fl d n v) d nvs) key
         = Some (if key \<in> set fl then PList [v] else v)"
  using assms
proof (induction nvs arbitrary: d)
  case Nil
  then show ?case by simp
next
  case (Cons a nvs)
  obtain n w where a: "a = (n, w)" by (cases a)
  show ?case
  proof (cases "n = key")
    case True
    have f: "(key, w) # filter (\<lambda>nv. fst nv = key) nvs = [(key, v)]"
      using Cons.prems(2) a True by simp
    then have wv: "w = v" and rest: "filter (\<lambda>nv. fst nv = key) nvs = []" by simp_all
    have no: "\<forall>nv\<in>set nvs. fst nv \<noteq> key" using rest by (simp add: filter_empty_conv)
    have "map_of (foldl (\<lambda>d (n, v). push_data fl d n v) (push_data fl d key v) nvs) key
          = map_of (push_data fl d key v) key" using no by (rule map_of_foldl_other)
    also have "\<dots> = Some (if key \<in> set fl then PList [v] else v)"
      using Cons.prems(1) by (rule map_of_push_new)
    finally show ?thesis using a True wv by simp
  next
    case False
    have "map_of (push_data fl d n w) key = None"
      using False Cons.prems(1) by (simp add: map_of_push_other)
    moreover have "filter (\<lambda>nv. fst nv = key) nvs = [(key, v)]"
      using Cons.prems(2) a False by simp
    ultimately have "map_of (foldl (\<lambda>d (n, v). push_data fl d n v) (push_data fl d n w) nvs) key
         = Some (if key \<in> set fl then PList [v] else v)" by (rule Cons.IH)
    then show ?thesis using a by simp
  qed
qed

lemma map_of_attrs:
  assumes "\<not> startswith key [64]"
  shows "map_of (foldl (\<lambda>d (k, v). AList.update (64 # k) (PStr v) d) d attrs) key = map_of d key"
proof (induction attrs arbitrary: d)
  case Nil
  show ?case by simp
next
  case (Cons a attrs)
  obtain k v where a: "a = (k, v)" by (cases a)
  have "key \<noteq> 64 # k" using assms by (auto simp: startswith_def)
  then have "map_of (AList.update (64 # k) (PStr v) d) key = map_of d key"
    by (simp add: map_of_update)
  then show ?case using Cons.IH[of "AList.update (64 # k) (PStr v) d"] a by simp
qed

lemma getitem_single_child:
  assumes one: "filter (\<lambda>k. is_elem k \<and> elem_name k = key) kids = [kid]"
    and key: "\<not> startswith key [64]" "key \<noteq> ustr ''#text''"
  shows "getitem (to_value fl (Elem name attrs kids)) key
         = Inr (if key \<in> set fl then PList [to_value fl kid] else to_value fl kid)"
proof -
  let ?base = "foldl (\<lambda>d (k, v). AList.update (64 # k) (PStr v) d) [] attrs"
  let ?nvs = "map (\<lambda>k. (elem_name k, to_value fl k)) (filter is_elem kids)"
  let ?dict = "foldl (\<lambda>d (n, v). push_data fl d n v) ?base ?nvs"
  have "kid \<in> set (filter (\<lambda>k. is_elem k \<and> elem_name k = key) kids)"
    unfolding one by simp
  then have kid: "kid \<in> set kids" "is_elem kid" "elem_name kid = key" by simp_all
  then have ne: "filter is_elem kids \<noteq> []" by (auto simp: filter_empty_conv)
  have b: "map_of ?base key = None" using map_of_attrs[OF key(1), of "[]" attrs] by simp
  have "filter (\<lambda>nv. fst nv = key) ?nvs
        = map (\<lambda>k. (elem_name k, to_value fl k)) (filter (\<lambda>k. is_elem k \<and> elem_name k = key) kids)"
    by (induction kids) auto
  then have f: "filter (\<lambda>nv. fst nv = key) ?nvs = [(key, to_value fl kid)]"
    using one kid(3) by simp
  have m: "map_of ?dict key = Some (if key \<in> set fl then PList [to_value fl kid] else to_value fl kid)"
    using b f by (rule map_of_foldl_single)
  have m2: "map_of (push_data fl ?dict (ustr ''#text'') t) key = map_of ?dict key" for t
    using key(2) by (intro map_of_push_other) simp
  show ?thesis using ne m m2 by (simp add: Let_def)
qed

lemma to_value_text_only:
  assumes "filter is_elem kids = []" and "strip (concat (map text_of kids)) = s" and "s \<noteq> []"
  shows "to_value fl (Elem name [] kids) = PStr s"
  using assms by (simp add: Let_def)

text \<open>
  C8. Take a metadata document with one \<^verbatim>\<open>collectionList\<close>, one \<^verbatim>\<open>colList\<close> in
  it, and in that one \<^verbatim>\<open>colId\<close> whose text reads as the integer \<open>n\<close>. Parsed with
  \<^verbatim>\<open>force_list=("colList",)\<close>, the single entry is a list of one, the loop runs over
  that list, and the collection ids are the list with the one element \<open>n\<close>. The witness
  also evaluates the same document without \<^verbatim>\<open>force_list\<close>: the entry is then a
  dictionary, the loop runs over its keys, and the subscript raises \<^verbatim>\<open>TypeError\<close>.
\<close>

theorem single_collection_is_a_list:
  assumes rt: "expat content = Some (Elem (ustr ''trpDocMetadata'') rattrs rkids)"
    and cl: "filter (\<lambda>k. is_elem k \<and> elem_name k = ustr ''collectionList'') rkids
             = [Elem (ustr ''collectionList'') cattrs ckids]"
    and c: "filter (\<lambda>k. is_elem k \<and> elem_name k = ustr ''colList'') ckids
            = [Elem (ustr ''colList'') lattrs lkids]"
    and cid: "filter (\<lambda>k. is_elem k \<and> elem_name k = ustr ''colId'') lkids
              = [Elem (ustr ''colId'') [] idkids]"
    and noel: "filter is_elem idkids = []"
    and num: "int_of_str (strip (concat (map text_of idkids))) = Some n"
  shows "bindE (parse_xml expat [ustr ''colList''] content) doc_collections = Inr [n]"
proof -
  let ?fl = "[ustr ''colList'']"
  let ?root = "Elem (ustr ''trpDocMetadata'') rattrs rkids"
  let ?cl = "Elem (ustr ''collectionList'') cattrs ckids"
  let ?c = "Elem (ustr ''colList'') lattrs lkids"
  let ?id = "Elem (ustr ''colId'') [] idkids"
  let ?s = "strip (concat (map text_of idkids))"
  have p: "parse_xml expat ?fl content
        = Inr (PDict (push_data ?fl [] (ustr ''trpDocMetadata'') (to_value ?fl ?root)))"
    using rt by (simp add: parse_xml_def)
  have g0: "getitem (PDict (push_data ?fl [] (ustr ''trpDocMetadata'') (to_value ?fl ?root)))
              (ustr ''trpDocMetadata'') = Inr (to_value ?fl ?root)"
    by (simp add: push_data_def ustr_def)
  have g1: "getitem (to_value ?fl ?root) (ustr ''collectionList'') = Inr (to_value ?fl ?cl)"
    using getitem_single_child[OF cl, of ?fl "ustr ''trpDocMetadata''" rattrs]
    by (simp add: ustr_def startswith_def)
  have g2: "getitem (to_value ?fl ?cl) (ustr ''colList'') = Inr (PList [to_value ?fl ?c])"
    using getitem_single_child[OF c, of ?fl "ustr ''collectionList''" cattrs]
    by (simp add: ustr_def startswith_def)
  have g3: "getitem (to_value ?fl ?c) (ustr ''colId'') = Inr (to_value ?fl ?id)"
    using getitem_single_child[OF cid, of ?fl "ustr ''colList''" lattrs]
    by (simp add: ustr_def startswith_def)
  have "int_of_str [] = None" by (simp add: int_of_str_def strip_def)
  then have "?s \<noteq> []" using num by auto
  then have v: "to_value ?fl ?id = PStr ?s" using noel by (intro to_value_text_only) simp_all
  have i: "py_int (PStr ?s) = Inr n" using num by simp
  show ?thesis
    unfolding p by (simp add: doc_collections_def g0 g1 g2 g3 v i del: to_value.simps getitem.simps py_int.simps)
qed

section \<open>The sample and the pointer lists\<close>

text \<open>
  A missing image in a pointer list. Let the path mapping be the one built from a parsed
  structure document, and let the three scans of a division succeed. When the image id
  is absent, or is not a key of the mapping, assembling the page raises
  \<^verbatim>\<open>KeyError\<close>. No record is yielded for this page nor for any page behind it.
\<close>

theorem missing_image_is_fatal:
  assumes "attr_strs mets" and "build_paths mets = Inr paths"
    and "next_fileid (ustr ''IMG_'') struct = Inr img_id"
    and "next_fileid (ustr ''ALTO_'') struct = Inr alto_id"
    and "next_fileid (ustr ''PAGEXML_'') struct = Inr page_id"
    and "img_id = None \<or> (\<exists>s. img_id = Some s \<and> paths (PStr s) = None)"
  shows "page_entry fs metadata_root paths docid struct = Inl KeyError
       \<and> pages fs metadata_root paths docid (struct # rest) = ([], Some KeyError)
       \<and> fst (pages fs metadata_root paths docid (before @ struct # rest))
           = fst (pages fs metadata_root paths docid before)
       \<and> snd (pages fs metadata_root paths docid (before @ struct # rest)) \<noteq> None"
proof -
  have pn: "paths PNone = None"
  proof (cases "paths PNone")
    case None
    then show ?thesis .
  next
    case (Some v)
    then have "is_str PNone" using build_paths_keys[OF assms(1,2)] by blast
    then show ?thesis by simp
  qed
  show ?thesis by (rule missing_image_key_error[OF assms(3) assms(4) assms(5) pn assms(6)])
qed

lemma sample_attr_strs: "attr_strs sample_mets_value"
proof -
  have p: "parse_xml sample_expat [] (ustr ''S'') = Inr sample_mets_value"
    by (simp add: parse_xml_def sample_expat_def sample_mets_value_def sample_mets_def el_def ustr_def)
  show ?thesis using sample_well_named by (intro parse_xml_attr_strs[OF p]) blast
qed

lemma sample_scans:
  "next_fileid (ustr ''IMG_'') (sample_struct ''3'' [''ALTO_2'', ''PAGEXML_3'']) = Inr None"
  "next_fileid (ustr ''ALTO_'') (sample_struct ''3'' [''ALTO_2'', ''PAGEXML_3'']) = Inr (Some (ustr ''ALTO_2''))"
  "next_fileid (ustr ''PAGEXML_'') (sample_struct ''3'' [''ALTO_2'', ''PAGEXML_3'']) = Inr (Some (ustr ''PAGEXML_3''))"
  "next_fileid (ustr ''IMG_'') (sample_struct ''4'' [''IMG_7'', ''ALTO_2'']) = Inr (Some (ustr ''IMG_7''))"
  "next_fileid (ustr ''ALTO_'') (sample_struct ''4'' [''IMG_7'', ''ALTO_2'']) = Inr (Some (ustr ''ALTO_2''))"
  "next_fileid (ustr ''PAGEXML_'') (sample_struct ''4'' [''IMG_7'', ''ALTO_2'']) = Inr None"
  by (simp_all add: w_defs)

lemma sample_unmapped: "sample_paths (PStr (ustr ''IMG_7'')) = None"
  by (simp add: w_defs)

theorem missing_image_is_fatal_witness:
  "page_entry sample_fs [ustr ''in'', ustr ''d1''] sample_paths 42
      (sample_struct ''3'' [''ALTO_2'', ''PAGEXML_3'']) = Inl KeyError
   \<and> page_entry sample_fs [ustr ''in'', ustr ''d1''] sample_paths 42
      (sample_struct ''4'' [''IMG_7'', ''ALTO_2'']) = Inl KeyError
   \<and> pages sample_fs [ustr ''in'', ustr ''d1''] sample_paths 42
      [sample_struct ''1'' [''IMG_1'', ''ALTO_2''],
       sample_struct ''4'' [''IMG_7'', ''ALTO_2''],
       sample_struct ''2'' [''IMG_2'', ''PAGEXML_3'']] = ([sample_record1], Some KeyError)"
  using
    missing_image_is_fatal[OF sample_attr_strs sample_paths_built sample_scans(1,2,3),
      of sample_fs "[ustr ''in'', ustr ''d1'']" 42 "[]" "[]"]
    missing_image_is_fatal[OF sample_attr_strs sample_paths_built sample_scans(4,5,6),
      of sample_fs "[ustr ''in'', ustr ''d1'']" 42
         "[sample_struct ''2'' [''IMG_2'', ''PAGEXML_3'']]"
         "[sample_struct ''1'' [''IMG_1'', ''ALTO_2'']]"]
    sample_unmapped sample_page1
  by simp


theorem sequence_is_order_string_witness:
  "getitem (sample_struct ''1'' [''IMG_1'', ''ALTO_2'']) (ustr ''@ORDER'') = Inr (PStr (ustr ''1''))
   \<and> r_sequence sample_record1 = PStr (ustr ''1'')
   \<and> sample_record2 \<in> set (fst (dataset_generator_transkribus sample_expat sample_fs [ustr ''in''] [7]))
   \<and> (\<exists>s. r_sequence sample_record2 = PStr s)"
  using sequence_is_order_string
    [where fs = sample_fs and metadata_root = "[ustr ''in'', ustr ''d1'']" and paths = sample_paths
       and docid = 42 and struct = "sample_struct ''1'' [''IMG_1'', ''ALTO_2'']"
       and r = sample_record1 and expat = sample_expat and r' = sample_record2
       and fs' = sample_fs and root = "[ustr ''in'']" and collections = "[7]"]
    sample_page1 sample_well_named sample_run
  by (simp add: sample_record1_def)

lemma sample_pointers:
  "getitem (sample_struct ''1'' [''IMG_1'', ''ALTO_2'']) (ustr ''ns3:fptr'')
     = Inr (PList [to_value [] (sample_fptr ''IMG_1''), to_value [] (sample_fptr ''ALTO_2'')])"
  "list_all2 (\<lambda>f i. fileid_of f = Inr (PStr i))
     [to_value [] (sample_fptr ''IMG_1''), to_value [] (sample_fptr ''ALTO_2'')]
     [ustr ''IMG_1'', ustr ''ALTO_2'']"
  by (simp_all add: w_defs)

theorem first_id_per_prefix_witness:
  "next_fileid (ustr ''IMG_'') (sample_struct ''1'' [''IMG_1'', ''ALTO_2'']) = Inr (Some (ustr ''IMG_1''))
   \<and> next_fileid (ustr ''ALTO_'') (sample_struct ''1'' [''IMG_1'', ''ALTO_2'']) = Inr (Some (ustr ''ALTO_2''))
   \<and> next_fileid (ustr ''PAGEXML_'') (sample_struct ''1'' [''IMG_1'', ''ALTO_2'']) = Inr None
   \<and> page_entry sample_fs [ustr ''in'', ustr ''d1''] sample_paths 42
        (sample_struct ''1'' [''IMG_1'', ''ALTO_2'']) = Inr sample_record1
   \<and> r_page sample_record1 = []"
  using
    first_id_per_prefix[OF sample_pointers, where pre = "ustr ''IMG_''" and fs = sample_fs
      and metadata_root = "[ustr ''in'', ustr ''d1'']" and paths = sample_paths and docid = 42
      and r = sample_record1]
    first_id_per_prefix[OF sample_pointers, where pre = "ustr ''ALTO_''"]
    first_id_per_prefix[OF sample_pointers, where pre = "ustr ''PAGEXML_''"]
    sample_page1
  by (simp add: startswith_def ustr_def)


lemma sample_groups:
  "file_groups sample_mets_value
     = Inr (PList
         [to_value [] (el ''ns3:fileGrp'' [(''ID'', ''IMG'')]
                        [sample_file ''IMG_1'' ''1.jpg'', sample_file ''IMG_2'' ''2.jpg'']),
          to_value [] (el ''ns3:fileGrp'' [(''ID'', ''TXT'')]
                        [sample_file ''ALTO_2'' ''a%20b.xml'', sample_file ''PAGEXML_3'' ''p.xml''])])"
  "list_all2 (\<lambda>g es. \<exists>fs. getitem g (ustr ''ns3:file'') = Inr (PList fs)
            \<and> list_all2 (\<lambda>f e. id_and_href f = Inr (PStr (fst e), PStr (snd e))) fs es)
     [to_value [] (el ''ns3:fileGrp'' [(''ID'', ''IMG'')]
                        [sample_file ''IMG_1'' ''1.jpg'', sample_file ''IMG_2'' ''2.jpg'']),
      to_value [] (el ''ns3:fileGrp'' [(''ID'', ''TXT'')]
                        [sample_file ''ALTO_2'' ''a%20b.xml'', sample_file ''PAGEXML_3'' ''p.xml''])]
     sample_entries"
  by (simp_all add: w_defs)

theorem path_mapping_percent_decoded_witness:
  "build_paths sample_mets_value = Inr sample_paths
   \<and> sample_paths (PStr (ustr ''ALTO_2'')) = Some (ustr ''a b.xml'')
   \<and> unquote_str (ustr ''a%20b.xml'') = ustr ''a b.xml''"
  using path_mapping_percent_decoded[OF sample_groups]
  by (simp add: w_defs)

theorem single_collection_is_a_list_witness:
  "bindE (parse_xml sample_expat [ustr ''colList''] (ustr ''M7'')) doc_collections = Inr [7]
   \<and> bindE (parse_xml sample_expat [] (ustr ''M7'')) doc_collections = Inl TypeError"
  using single_collection_is_a_list
    [where expat = sample_expat and content = "ustr ''M7''" and n = 7
       and rattrs = "[]"
       and rkids = "[Text [10, 32],
                     el ''docId'' [] [Text (ustr ''42'')],
                     el ''title'' [] [Text (ustr ''Letters'')],
                     el ''collectionList'' []
                       [el ''colList'' []
                          [el ''colId'' [] [Text (ustr ''7'')],
                           el ''colName'' [] [Text (ustr ''A'')]]]]"
       and cattrs = "[]"
       and ckids = "[el ''colList'' []
                      [el ''colId'' [] [Text (ustr ''7'')], el ''colName'' [] [Text (ustr ''A'')]]]"
       and lattrs = "[]"
       and lkids = "[el ''colId'' [] [Text (ustr ''7'')], el ''colName'' [] [Text (ustr ''A'')]]"
       and idkids = "[Text (ustr ''7'')]"]
  by (simp add: w_defs)

section \<open>Single children in the structure document\<close>

text \<open>
  The metadata document is read with \<^verbatim>\<open>force_list=("colList",)\<close>, so a document in one
  collection still has a list under \<^verbatim>\<open>colList\<close>. The structure document is read by
  \<^verbatim>\<open>parse_xml(metadata_root.joinpath("mets.xml").read_text("utf-8"))\<close>, with no element
  forced to a list: an element that is the only one of its name among its siblings is
  delivered as one dictionary. The loops over the file groups, the file entries, the page
  divisions and the file pointers then run over the keys of that dictionary, which are
  strings, and the subscript of such a key by a string raises \<^verbatim>\<open>TypeError\<close>.

  Three exports show it. Each has the metadata document of the sample, in collection 7.
  In \<open>S1\<close> the second page points at its image only. In \<open>S2\<close> the second page points
  at a raw-OCR layer only. \<open>S3\<close> is an export of one page: each of its file groups has
  one file entry. In \<open>S4\<close> the first page points at a raw-OCR layer whose file is not in
  the bundle, and at a curated layer that the file section does not list.
\<close>

definition mets_doc :: "xml list \<Rightarrow> xml list \<Rightarrow> xml" where
  "mets_doc groups divs =
     el ''ns3:mets'' []
       [el ''ns3:fileSec'' [] [el ''ns3:fileGrp'' [(''ID'', ''MASTER'')] groups],
        el ''ns3:structMap'' [] [el ''ns3:div'' [] divs]]"

definition two_groups :: "xml list" where
  "two_groups =
     [el ''ns3:fileGrp'' [(''ID'', ''IMG'')]
        [sample_file ''IMG_1'' ''1.jpg'', sample_file ''IMG_2'' ''2.jpg''],
      el ''ns3:fileGrp'' [(''ID'', ''TXT'')]
        [sample_file ''ALTO_2'' ''a%20b.xml'', sample_file ''PAGEXML_3'' ''p.xml'']]"

definition image_only_mets :: xml where
  "image_only_mets =
     mets_doc two_groups [sample_div ''1'' [''IMG_1'', ''ALTO_2''], sample_div ''2'' [''IMG_2'']]"

definition no_image_mets :: xml where
  "no_image_mets =
     mets_doc two_groups [sample_div ''1'' [''IMG_1'', ''ALTO_2''], sample_div ''2'' [''ALTO_2'']]"

definition one_page_groups :: "xml list" where
  "one_page_groups =
     [el ''ns3:fileGrp'' [(''ID'', ''IMG'')] [sample_file ''IMG_1'' ''1.jpg''],
      el ''ns3:fileGrp'' [(''ID'', ''ALTO'')] [sample_file ''ALTO_2'' ''a%20b.xml'']]"

definition one_page_mets :: xml where
  "one_page_mets = mets_doc one_page_groups [sample_div ''1'' [''IMG_1'', ''ALTO_2'']]"

definition unread_mets :: xml where
  "unread_mets =
     mets_doc two_groups
       [sample_div ''1'' [''IMG_1'', ''ALTO_2'', ''PAGEXML_9''],
        sample_div ''2'' [''IMG_2'', ''PAGEXML_3'']]"

definition single_expat :: "pystr \<Rightarrow> xml option" where
  "single_expat t =
     (if t = ustr ''M7'' then Some (sample_metadata ''7'')
      else if t = ustr ''S1'' then Some image_only_mets
      else if t = ustr ''S2'' then Some no_image_mets
      else if t = ustr ''S3'' then Some one_page_mets
      else if t = ustr ''S4'' then Some unread_mets
      else None)"

text \<open>
  The bundle \<open>in/d1\<close> with the structure document \<open>s\<close> and the files of the sample;
  \<open>alto\<close> are the entries for the raw-OCR file.
\<close>

definition single_fs :: "string \<Rightarrow> (pystr \<times> fsnode) list \<Rightarrow> fsnode" where
  "single_fs s alto =
     Dir [(ustr ''in'',
           Dir [(ustr ''d1'',
                 Dir ([(ustr ''metadata.xml'', File (Some (ustr ''M7''))),
                       (ustr ''mets.xml'', File (Some (ustr s))),
                       (ustr ''1.jpg'', File None),
                       (ustr ''2.jpg'', File None)]
                      @ alto
                      @ [(ustr ''p.xml'', File (Some (ustr ''<Page/>'')))]))])]"

definition alto_file :: "(pystr \<times> fsnode) list" where
  "alto_file = [(ustr ''a b.xml'', File (Some (ustr ''<alto/>'')))]"

text \<open>
  The structure document of the one-page export as the XML reader delivers it, with the
  elements \<open>force_list\<close> forced to lists.
\<close>

definition one_page_value :: "pystr list \<Rightarrow> pyval" where
  "one_page_value force_list =
     PDict (push_data force_list [] (ustr ''ns3:mets'') (to_value force_list one_page_mets))"

lemmas single_defs = w_defs mets_doc_def two_groups_def image_only_mets_def no_image_mets_def
  one_page_groups_def one_page_mets_def unread_mets_def single_expat_def single_fs_def
  alto_file_def one_page_value_def

text \<open>
  C5. The classification holds for a division with two or more file pointers
  (\<open>first_id_per_prefix\<close>); it does not for a division with one. The second page of
  \<open>S1\<close> points at the image \<open>IMG_2\<close> only. Its pointer is delivered as a dictionary,
  the scan for the image id takes the key \<^verbatim>\<open>ns3:area\<close> for a pointer and raises
  \<^verbatim>\<open>TypeError\<close> at \<^verbatim>\<open>f["ns3:area"]\<close>: no id is assigned and no record with empty text
  layers is built. The generator yields the record of the first page and ends with the
  exception. Read with the pointer element forced to a list, as \<^verbatim>\<open>colList\<close> is in the
  metadata document, the same division gives the image id \<open>IMG_2\<close>, no layer ids, and a
  record with both text layers empty.
\<close>

theorem single_pointer_scan_raises:
  "next_fileid (ustr ''IMG_'') (sample_struct ''2'' [''IMG_2'']) = Inl TypeError
   \<and> page_entry (single_fs ''S1'' alto_file) [ustr ''in'', ustr ''d1''] sample_paths 42
        (sample_struct ''2'' [''IMG_2'']) = Inl TypeError
   \<and> dataset_generator_transkribus single_expat (single_fs ''S1'' alto_file) [ustr ''in''] [7]
        = ([sample_record1], Some TypeError)
   \<and> next_fileid (ustr ''IMG_'') (to_value [ustr ''ns3:fptr''] (sample_div ''2'' [''IMG_2'']))
        = Inr (Some (ustr ''IMG_2''))
   \<and> next_fileid (ustr ''ALTO_'') (to_value [ustr ''ns3:fptr''] (sample_div ''2'' [''IMG_2'']))
        = Inr None
   \<and> next_fileid (ustr ''PAGEXML_'') (to_value [ustr ''ns3:fptr''] (sample_div ''2'' [''IMG_2'']))
        = Inr None
   \<and> page_entry (single_fs ''S1'' alto_file) [ustr ''in'', ustr ''d1''] sample_paths 42
        (to_value [ustr ''ns3:fptr''] (sample_div ''2'' [''IMG_2'']))
        = Inr \<lparr> r_image = ustr ''/in/d1/2.jpg'', r_doc_id = 42, r_sequence = PStr (ustr ''2''),
                r_alto = [], r_page = [] \<rparr>"
  by (simp add: single_defs)

text \<open>
  C6. A missing image raises \<^verbatim>\<open>KeyError\<close> for a division with two or more file pointers
  (\<open>missing_image_is_fatal\<close>); it does not for a division with one. The second page of
  \<open>S2\<close> points at the raw-OCR layer \<open>ALTO_2\<close> only, so its image id is absent. The
  scan for the image id raises \<^verbatim>\<open>TypeError\<close> before any lookup in the path mapping is
  made; the generator yields the record of the first page and ends with that exception.
  Read with the pointer element forced to a list, the same division raises the
  \<^verbatim>\<open>KeyError\<close> of the lookup.
\<close>

theorem single_pointer_without_image_raises:
  "next_fileid (ustr ''IMG_'') (sample_struct ''2'' [''ALTO_2'']) = Inl TypeError
   \<and> page_entry (single_fs ''S2'' alto_file) [ustr ''in'', ustr ''d1''] sample_paths 42
        (sample_struct ''2'' [''ALTO_2'']) = Inl TypeError
   \<and> dataset_generator_transkribus single_expat (single_fs ''S2'' alto_file) [ustr ''in''] [7]
        = ([sample_record1], Some TypeError)
   \<and> page_entry (single_fs ''S2'' alto_file) [ustr ''in'', ustr ''d1''] sample_paths 42
        (to_value [ustr ''ns3:fptr''] (sample_div ''2'' [''ALTO_2''])) = Inl KeyError"
  by (simp add: single_defs)

text \<open>
  C7. The mapping stores the percent-decoded references when the file groups and the
  file entries of each group arrive as lists (\<open>path_mapping_percent_decoded\<close>); it is
  not built when a group has one file entry. In the one-page export \<open>S3\<close> the entry
  \<open>ALTO_2\<close> has the location \<^verbatim>\<open>a%20b.xml\<close>. The entry of each group is delivered as a
  dictionary, the comprehension takes the key \<^verbatim>\<open>@ID\<close> for a file entry and raises
  \<^verbatim>\<open>TypeError\<close> at \<^verbatim>\<open>file["@ID"]\<close>: there is no mapping, and the generator ends with
  the exception before it yields a record. Read with the file element forced to a list,
  the same document gives a mapping that stores \<^verbatim>\<open>a b.xml\<close> for \<open>ALTO_2\<close>.
\<close>

theorem single_file_entry_raises:
  "build_paths (one_page_value []) = Inl TypeError
   \<and> parse_xml single_expat [] (ustr ''S3'') = Inr (one_page_value [])
   \<and> dataset_generator_transkribus single_expat (single_fs ''S3'' alto_file) [ustr ''in''] [7]
        = ([], Some TypeError)
   \<and> (\<exists>paths. build_paths (one_page_value [ustr ''ns3:file'']) = Inr paths
         \<and> paths (PStr (ustr ''ALTO_2'')) = Some (ustr ''a b.xml'')
         \<and> paths (PStr (ustr ''IMG_1'')) = Some (ustr ''1.jpg''))"
  by (simp add: single_defs)

section \<open>The sequence of a record\<close>


section \<open>Unmapped text layers\<close>









end
